theory Spec2Isabelle
  imports Complex_Main
begin

text \<open>
  A shallow embedding of the media-engine control channel of the Hybrid Player:
  the renderer's thumbnail requester (\<^verbatim>\<open>HybridThumbnails\<close>), the preview cache of
  the IPC bridge, and the engine process manager (\<^verbatim>\<open>MpvProcess\<close>).
  Counters are JavaScript numbers that only ever grow by one from a small start value;
  they stay far below \<open>2^53\<close>, where the arithmetic is exact, and are modelled as
  natural numbers.  Times are modelled as reals.  Console output is not modelled.
\<close>

chapter \<open>Definitions\<close>

section \<open>Timers of the host event loop\<close>

text \<open>
  \<^verbatim>\<open>setTimeout\<close> returns a handle; the armed timers are kept as a list of
  (handle, callback) pairs in arming order.  \<^verbatim>\<open>clearTimeout\<close> disarms the timer
  with the given handle and does nothing for \<^verbatim>\<open>null\<close> or for a handle that is
  no longer armed.
\<close>

definition clearTimeout :: "nat option \<Rightarrow> (nat \<times> 'a) list \<Rightarrow> (nat \<times> 'a) list" where
  "clearTimeout h ts = (case h of None \<Rightarrow> ts | Some i \<Rightarrow> filter (\<lambda>(j, _). j \<noteq> i) ts)"

section \<open>Numbers of the renderer\<close>

text \<open>
  A JavaScript number is an IEEE 754 double: a finite value, an infinity or NaN (the
  sign of zero is not kept: nothing modelled here tells the two zeros apart).
\<close>

datatype number = Finite real | PosInf | NegInf | NaN

text \<open>
  The exponent of the binade of \<open>x\<close>: the largest \<open>e\<close> from -1021 to 1023 with
  \<open>2 powi e \<le> x\<close>, found by going down from the top of the \<open>n\<close> lowest
  candidates, and -1022 (the exponent shared with the subnormal numbers) when there
  is none.
\<close>

primrec binade :: "nat \<Rightarrow> real \<Rightarrow> int" where
  "binade 0 x = -1022"
| "binade (Suc n) x = (if 2 powi (int n - 1021) \<le> x then int n - 1021 else binade n x)"

text \<open>The nearest integer, a tie going to the even one.\<close>

definition round_half_even :: "real \<Rightarrow> int" where
  "round_half_even q =
     (let f = \<lfloor>q\<rfloor>; r = q - of_int f in
      if r < 1 / 2 then f else if 1 / 2 < r then f + 1 else if even f then f else f + 1)"

text \<open>
  The result of an arithmetic operation whose exact value is \<open>x\<close>: the nearest number
  with a 53 bit significand in the binade of \<open>x\<close> (round to nearest, ties to even),
  and an infinity when that is \<open>2 powi 1024\<close> or more.
\<close>

definition round_double :: "real \<Rightarrow> number" where
  "round_double x =
     (let e = binade 2045 \<bar>x\<bar>;
          u = 2 powi (e - 52);
          y = of_int (round_half_even (\<bar>x\<bar> / u)) * u
      in if 2 powi 1024 \<le> y then (if 0 < x then PosInf else NegInf)
         else Finite (if x < 0 then - y else y))"

text \<open>\<^verbatim>\<open>a - b\<close>, \<^verbatim>\<open>Math.abs(a)\<close> and \<^verbatim>\<open>a < b\<close>.\<close>

fun js_sub :: "number \<Rightarrow> number \<Rightarrow> number" where
  "js_sub NaN _ = NaN"
| "js_sub _ NaN = NaN"
| "js_sub (Finite x) (Finite y) = round_double (x - y)"
| "js_sub (Finite _) PosInf = NegInf"
| "js_sub (Finite _) NegInf = PosInf"
| "js_sub PosInf PosInf = NaN"
| "js_sub PosInf _ = PosInf"
| "js_sub NegInf NegInf = NaN"
| "js_sub NegInf _ = NegInf"

fun js_abs :: "number \<Rightarrow> number" where
  "js_abs (Finite x) = Finite \<bar>x\<bar>"
| "js_abs PosInf = PosInf"
| "js_abs NegInf = PosInf"
| "js_abs NaN = NaN"

fun js_lt :: "number \<Rightarrow> number \<Rightarrow> bool" where
  "js_lt NaN _ = False"
| "js_lt _ NaN = False"
| "js_lt (Finite x) (Finite y) = (x < y)"
| "js_lt (Finite _) PosInf = True"
| "js_lt (Finite _) NegInf = False"
| "js_lt PosInf _ = False"
| "js_lt NegInf NegInf = False"
| "js_lt NegInf _ = True"

section \<open>Renderer: HybridThumbnails (src/renderer/modules/thumbnails.js)\<close>

record payload =
  dataUrl :: string
  p_time :: real

datatype capture_result = Resolved "payload option" | Rejected string

record thumbnails =
  th_imgEl :: "string option"
  th_debounceTimer :: "nat option"
  th_lastRequestedTime :: number
  th_pending :: bool
  th_requestToken :: nat
  th_queuedCapture :: "(number \<times> nat) option"
  th_timers :: "(nat \<times> number \<times> nat) list"
  th_nextTimer :: nat
  th_inflight :: "(number \<times> nat) list"
  th_calls :: "number list"

definition th_init :: "string option \<Rightarrow> thumbnails" where
  "th_init el = \<lparr> th_imgEl = el, th_debounceTimer = None, th_lastRequestedTime = Finite (-1),
     th_pending = False, th_requestToken = 0, th_queuedCapture = None,
     th_timers = [], th_nextTimer = 0, th_inflight = [], th_calls = [] \<rparr>"

text \<open>
  \<^verbatim>\<open>this.player.duration\<close> is a number, or \<^verbatim>\<open>null\<close> (\<open>None\<close>) when the player
  has none; zero, NaN and \<^verbatim>\<open>null\<close> are falsy.
\<close>

definition truthy_num :: "number option \<Rightarrow> bool" where
  "truthy_num d =
     (case d of
        None \<Rightarrow> False
      | Some (Finite x) \<Rightarrow> x \<noteq> 0
      | Some NaN \<Rightarrow> False
      | Some _ \<Rightarrow> True)"

definition generatePreview :: "number \<Rightarrow> number \<Rightarrow> number option \<Rightarrow> thumbnails \<Rightarrow> thumbnails" where
  "generatePreview time percent duration s =
     (if th_imgEl s = None \<or> \<not> truthy_num duration then s
      else if js_lt (js_abs (js_sub time (th_lastRequestedTime s))) (Finite (1 / 4)) then s
      else
        let token = th_requestToken s + 1; h = th_nextTimer s in
        s\<lparr> th_lastRequestedTime := time,
           th_requestToken := token,
           th_timers := clearTimeout (th_debounceTimer s) (th_timers s) @ [(h, (time, token))],
           th_debounceTimer := Some h,
           th_nextTimer := h + 1 \<rparr>)"

definition capture :: "number \<Rightarrow> nat \<Rightarrow> thumbnails \<Rightarrow> thumbnails" where
  "capture time token s =
     (if th_pending s then s\<lparr> th_queuedCapture := Some (time, token) \<rparr>
      else s\<lparr> th_pending := True,
              th_calls := th_calls s @ [time],
              th_inflight := th_inflight s @ [(time, token)] \<rparr>)"

definition apply_result :: "nat \<Rightarrow> capture_result \<Rightarrow> thumbnails \<Rightarrow> thumbnails" where
  "apply_result token r s =
     (case r of
        Rejected _ \<Rightarrow> s
      | Resolved res \<Rightarrow>
          if token \<noteq> th_requestToken s then s
          else (case res of
                  None \<Rightarrow> s
                | Some p \<Rightarrow>
                    if dataUrl p \<noteq> [] \<and> th_imgEl s \<noteq> None
                    then s\<lparr> th_imgEl := Some (dataUrl p) \<rparr> else s))"

definition capture_resume :: "number \<times> nat \<Rightarrow> capture_result \<Rightarrow> thumbnails \<Rightarrow> thumbnails" where
  "capture_resume c r s =
     (let s1 = (apply_result (snd c) r s)\<lparr> th_pending := False \<rparr> in
      case th_queuedCapture s1 of
        None \<Rightarrow> s1
      | Some queued \<Rightarrow>
          let s2 = s1\<lparr> th_queuedCapture := None \<rparr> in
          if snd queued = th_requestToken s2 then capture (fst queued) (snd queued) s2 else s2)"

definition thumbnails_destroy :: "thumbnails \<Rightarrow> thumbnails" where
  "thumbnails_destroy s =
     s\<lparr> th_timers := clearTimeout (th_debounceTimer s) (th_timers s), th_queuedCapture := None \<rparr>"

definition cancelPending :: "thumbnails \<Rightarrow> thumbnails" where
  "cancelPending s =
     s\<lparr> th_requestToken := th_requestToken s + 1,
        th_queuedCapture := None,
        th_timers := clearTimeout (th_debounceTimer s) (th_timers s) \<rparr>"

datatype th_event =
    GeneratePreview number number "number option"
  | DebounceFire nat
  | CaptureDone nat capture_result
  | CancelPending
  | ThumbDestroy

definition th_step :: "thumbnails \<Rightarrow> th_event \<Rightarrow> thumbnails" where
  "th_step s e =
     (case e of
        GeneratePreview time percent duration \<Rightarrow> generatePreview time percent duration s
      | DebounceFire h \<Rightarrow>
          (case map_of (th_timers s) h of
             None \<Rightarrow> s
           | Some (time, token) \<Rightarrow>
               capture time token (s\<lparr> th_timers := clearTimeout (Some h) (th_timers s) \<rparr>))
      | CaptureDone k r \<Rightarrow>
          (if k < length (th_inflight s)
           then capture_resume (th_inflight s ! k) r
                  (s\<lparr> th_inflight := take k (th_inflight s) @ drop (Suc k) (th_inflight s) \<rparr>)
           else s)
      | CancelPending \<Rightarrow> cancelPending s
      | ThumbDestroy \<Rightarrow> thumbnails_destroy s)"

definition th_run :: "thumbnails \<Rightarrow> th_event list \<Rightarrow> thumbnails" where
  "th_run s es = foldl th_step s es"

definition th_tokens :: "thumbnails \<Rightarrow> nat set" where
  "th_tokens s = snd ` set (th_inflight s) \<union> snd ` set_option (th_queuedCapture s)
     \<union> (snd \<circ> snd) ` set (th_timers s)"

text \<open>
  Tokens still referenced by the instance: those of captures awaiting their result, of the
  queued capture and of the armed debounce timer.  In every reachable state none of them
  exceeds the current request token.
\<close>

definition th_inv :: "thumbnails \<Rightarrow> bool" where
  "th_inv s = (\<forall>t \<in> th_tokens s. t \<le> th_requestToken s)"

section \<open>Insertion-ordered maps\<close>

text \<open>
  A JavaScript \<^verbatim>\<open>Map\<close> iterates its entries in insertion order.  It is modelled as
  an association list with distinct keys: \<^verbatim>\<open>set\<close> on a present key replaces the
  value in place, \<^verbatim>\<open>set\<close> on a new key appends, \<^verbatim>\<open>delete\<close> removes the entry, and
  \<^verbatim>\<open>keys().next().value\<close> is the first key (\<^verbatim>\<open>undefined\<close> on an empty map).
\<close>

type_synonym ('k, 'v) jsmap = "('k \<times> 'v) list"

fun jsmap_set :: "'k \<Rightarrow> 'v \<Rightarrow> ('k, 'v) jsmap \<Rightarrow> ('k, 'v) jsmap" where
  "jsmap_set k v [] = [(k, v)]"
| "jsmap_set k v (e # m) = (if fst e = k then (k, v) # m else e # jsmap_set k v m)"

definition jsmap_get :: "'k \<Rightarrow> ('k, 'v) jsmap \<Rightarrow> 'v option" where
  "jsmap_get k m = map_of m k"

definition jsmap_delete :: "'k \<Rightarrow> ('k, 'v) jsmap \<Rightarrow> ('k, 'v) jsmap" where
  "jsmap_delete k m = filter (\<lambda>e. fst e \<noteq> k) m"

definition jsmap_first_key :: "('k, 'v) jsmap \<Rightarrow> 'k option" where
  "jsmap_first_key m = (case m of [] \<Rightarrow> None | e # _ \<Rightarrow> Some (fst e))"

section \<open>Main process: preview cache and thumbnail capture (mpv IPC bridge)\<close>

definition cacheSet :: "'k \<Rightarrow> 'v \<Rightarrow> ('k, 'v) jsmap \<Rightarrow> ('k, 'v) jsmap" where
  "cacheSet key val previewCache =
     (let c = jsmap_set key val previewCache in
      if length c > 180
      then (case jsmap_first_key c of None \<Rightarrow> c | Some oldest \<Rightarrow> jsmap_delete oldest c)
      else c)"

text \<open>
  The cache key is the string \<^verbatim>\<open>`${mediaPath}|${rounded}`\<close>.  The rendering of a
  number contains no \<^verbatim>\<open>|\<close> and different numbers render differently, so the string
  determines the pair; the key is modelled as the pair (mediaPath, rounded).
\<close>

type_synonym cache_key = "string \<times> real"

datatype js_error = Error string

text \<open>Commands the bridge sends to the headless preview engine, in the order issued.\<close>

datatype preview_cmd =
    PreviewSpawn
  | PreviewLoadFile string
  | PreviewPause
  | PreviewSeek real
  | PreviewScreenshotToFile string

text \<open>
  What the bridge cannot decide by itself: whether the preview engine becomes ready
  within the 4 second wait, whether a command sent to it is rejected (and with which
  message), the bytes a screenshot command leaves on disk, the file name derived from the
  SHA-1 digest of the key, and the base64 rendering of file contents.
\<close>

record preview_env =
  pe_ready :: bool
  pe_reject :: "preview_cmd \<Rightarrow> string option"
  pe_shot :: "string option"
  pe_thumbPath :: "cache_key \<Rightarrow> string"
  pe_base64 :: "string \<Rightarrow> string"

record bridge =
  br_previewCache :: "(cache_key, payload) jsmap"
  br_previewLoadedPath :: "string option"
  br_previewProcess :: bool
  br_files :: "string \<Rightarrow> string option"
  br_issued :: "preview_cmd list"
  br_previewQueue :: "cache_key list"

definition preview_command :: "preview_env \<Rightarrow> preview_cmd \<Rightarrow> bridge \<Rightarrow> string option \<times> bridge" where
  "preview_command env c st = (pe_reject env c, st\<lparr> br_issued := br_issued st @ [c] \<rparr>)"

definition ensurePreviewProcess :: "preview_env \<Rightarrow> bridge \<Rightarrow> string option \<times> bridge" where
  "ensurePreviewProcess env st =
     (let st1 = (if \<not> br_previewProcess st
                 then st\<lparr> br_previewProcess := True, br_issued := br_issued st @ [PreviewSpawn] \<rparr>
                 else st)
      in (if pe_ready env then None else Some ''preview mpv not ready'', st1))"

definition load_preview_media :: "preview_env \<Rightarrow> string \<Rightarrow> bridge \<Rightarrow> string option \<times> bridge" where
  "load_preview_media env mediaPath st =
     (if br_previewLoadedPath st \<noteq> Some mediaPath then
        (case preview_command env (PreviewLoadFile mediaPath) st of
           (Some err, st1) \<Rightarrow> (Some err, st1)
         | (None, st1) \<Rightarrow>
             (case preview_command env PreviewPause st1 of
                (Some err, st2) \<Rightarrow> (Some err, st2)
              | (None, st2) \<Rightarrow> (None, st2\<lparr> br_previewLoadedPath := Some mediaPath \<rparr>)))
      else (None, st))"

definition capture_file :: "preview_env \<Rightarrow> string \<Rightarrow> bridge \<Rightarrow> string option \<times> bridge" where
  "capture_file env thumbPath st =
     (if br_files st thumbPath = None then
        (case preview_command env (PreviewScreenshotToFile thumbPath) st of
           (Some err, st1) \<Rightarrow> (Some err, st1)
         | (None, st1) \<Rightarrow>
             (None, (case pe_shot env of
                       None \<Rightarrow> st1
                     | Some bytes \<Rightarrow> st1\<lparr> br_files := (br_files st1)(thumbPath \<mapsto> bytes) \<rparr>)))
      else (None, st))"

text \<open>The task handed to \<^verbatim>\<open>queuePreview\<close>; tasks run one after another.\<close>

definition preview_task :: "preview_env \<Rightarrow> cache_key \<Rightarrow> bridge \<Rightarrow> (js_error + payload) \<times> bridge" where
  "preview_task env cacheKey st =
     (case jsmap_get cacheKey (br_previewCache st) of
        Some queuedCached \<Rightarrow> (Inr queuedCached, st)
      | None \<Rightarrow>
          (case ensurePreviewProcess env st of
             (Some err, st1) \<Rightarrow> (Inl (Error err), st1)
           | (None, st1) \<Rightarrow>
          (case load_preview_media env (fst cacheKey) st1 of
             (Some err, st2) \<Rightarrow> (Inl (Error err), st2)
           | (None, st2) \<Rightarrow>
          (case preview_command env (PreviewSeek (snd cacheKey)) st2 of
             (Some err, st3) \<Rightarrow> (Inl (Error err), st3)
           | (None, st3) \<Rightarrow>
          (let thumbPath = pe_thumbPath env cacheKey in
           case capture_file env thumbPath st3 of
             (Some err, st4) \<Rightarrow> (Inl (Error err), st4)
           | (None, st4) \<Rightarrow>
               (case br_files st4 thumbPath of
                  None \<Rightarrow> (Inl (Error ''ENOENT: no such file or directory''), st4)
                | Some fileData \<Rightarrow>
                    (let pl = \<lparr> dataUrl = ''data:image/jpeg;base64,'' @ pe_base64 env fileData,
                                p_time = snd cacheKey \<rparr>
                     in (Inr pl, st4\<lparr> br_previewCache := cacheSet cacheKey pl (br_previewCache st4) \<rparr>))))))))"

text \<open>
  The function passed to \<^verbatim>\<open>withReady\<close> by the capture handler, up to the point where
  it either returns or hands a task to the queue (\<^verbatim>\<open>Inl\<close>: the key of the queued
  task, whose result is the handler's result; \<^verbatim>\<open>Inr\<close>: the value returned at once).
\<close>

definition rounded_time :: "real \<Rightarrow> real" where
  "rounded_time time = (let safeTime = max 0 time in of_int \<lfloor>safeTime * 2 + 1 / 2\<rfloor> / 2)"

definition capture_action :: "string option \<Rightarrow> real \<Rightarrow> bridge \<Rightarrow> (cache_key + payload option) \<times> bridge" where
  "capture_action filePath time st =
     (case filePath of
        None \<Rightarrow> (Inr None, st)
      | Some mediaPath \<Rightarrow>
          if mediaPath = [] then (Inr None, st)
          else
            let cacheKey = (mediaPath, rounded_time time) in
            (case jsmap_get cacheKey (br_previewCache st) of
               Some cached \<Rightarrow> (Inr (Some cached), st)
             | None \<Rightarrow> (Inl cacheKey, st\<lparr> br_previewQueue := br_previewQueue st @ [cacheKey] \<rparr>)))"

definition js_includes :: "string \<Rightarrow> string \<Rightarrow> bool" where
  "js_includes hay needle = list_ex (\<lambda>i. take (length needle) (drop i hay) = needle) [0..<Suc (length hay)]"

definition ascii_lower :: "char \<Rightarrow> char" where
  "ascii_lower c =
     (let n = (of_char c :: nat) in if 65 \<le> n \<and> n \<le> 90 then char_of (n + 32) else c)"

definition transient_unavailable :: "js_error \<Rightarrow> bool" where
  "transient_unavailable err =
     (case err of Error message \<Rightarrow>
        let msg = map ascii_lower message in
        js_includes msg ''not ready'' \<or> js_includes msg ''not connected'')"

text \<open>
  \<^verbatim>\<open>withReady(action, fallback)\<close>: \<open>became_ready\<close> tells whether the playback
  engine is ready or becomes ready within the 5 second wait; only then the action runs.
\<close>

definition withReady :: "bool \<Rightarrow> ('s \<Rightarrow> (js_error + 'a) \<times> 's) \<Rightarrow> 'a \<Rightarrow> 's \<Rightarrow> (js_error + 'a) \<times> 's" where
  "withReady became_ready action fallback st =
     (case (if became_ready then action st else (Inl (Error ''mpv not ready''), st)) of
        (Inl err, st1) \<Rightarrow> (if transient_unavailable err then (Inr fallback, st1) else (Inl err, st1))
      | (Inr v, st1) \<Rightarrow> (Inr v, st1))"

text \<open>
  The handler of \<^verbatim>\<open>mpv:capture-thumbnail\<close>.  The fallback of \<^verbatim>\<open>withReady\<close> is
  \<^verbatim>\<open>null\<close>.  A queued task is run later by \<open>run_preview_task\<close>; its outcome passes
  through the same \<^verbatim>\<open>catch\<close> of \<^verbatim>\<open>withReady\<close> before it reaches the caller.
\<close>

definition capture_thumbnail_handler ::
    "bool \<Rightarrow> string option \<Rightarrow> real \<Rightarrow> bridge \<Rightarrow> (js_error + (cache_key + payload option)) \<times> bridge" where
  "capture_thumbnail_handler became_ready filePath time st =
     withReady became_ready
       (\<lambda>s. case capture_action filePath time s of (r, s1) \<Rightarrow> (Inr r, s1)) (Inr None) st"

definition run_preview_task :: "preview_env \<Rightarrow> bridge \<Rightarrow> (js_error + payload option) \<times> bridge" where
  "run_preview_task env st =
     (case br_previewQueue st of
        [] \<Rightarrow> (Inr None, st)
      | cacheKey # rest \<Rightarrow>
          (case preview_task env cacheKey (st\<lparr> br_previewQueue := rest \<rparr>) of
             (Inl err, st1) \<Rightarrow> (if transient_unavailable err then (Inr None, st1) else (Inl err, st1))
           | (Inr pl, st1) \<Rightarrow> (Inr (Some pl), st1)))"

text \<open>A full cache, used to exercise the eviction.\<close>

definition sample_cache :: "(cache_key, payload) jsmap" where
  "sample_cache = map (\<lambda>i. ((''a.mkv'', real i / 2), \<lparr> dataUrl = ''d'', p_time = real i / 2 \<rparr>)) [0..<180]"

text \<open>A bridge whose cache holds the preview of \<^verbatim>\<open>a.mkv\<close> at second 1.\<close>

definition cached_bridge :: bridge where
  "cached_bridge =
     \<lparr> br_previewCache = [((''a.mkv'', 1), \<lparr> dataUrl = ''d'', p_time = 1 \<rparr>)],
       br_previewLoadedPath = Some ''a.mkv'', br_previewProcess = True,
       br_files = (\<lambda>_. None), br_issued = [], br_previewQueue = [] \<rparr>"
section \<open>JavaScript values and the runtime\<close>

text \<open>
  Strings are kept as their UTF-8 bytes.  A parsed JSON document is a \<open>jsval\<close>; an
  object is an association list in which the parser has kept one entry per key.
  Reading a property of \<^verbatim>\<open>null\<close> or \<^verbatim>\<open>undefined\<close> throws (\<open>None\<close>); on any other
  value a property that is not there reads as \<^verbatim>\<open>undefined\<close>.
\<close>

datatype jsval =
    JUndefined
  | JNull
  | JBool bool
  | JNum real
  | JStr string
  | JArr "jsval list"
  | JObj "(string \<times> jsval) list"

definition get_field :: "jsval \<Rightarrow> string \<Rightarrow> jsval option" where
  "get_field v f =
     (case v of
        JObj props \<Rightarrow> Some (case map_of props f of None \<Rightarrow> JUndefined | Some x \<Rightarrow> x)
      | JNull \<Rightarrow> None
      | JUndefined \<Rightarrow> None
      | _ \<Rightarrow> Some JUndefined)"

definition field :: "jsval \<Rightarrow> string \<Rightarrow> jsval" where
  "field v f = (case get_field v f of None \<Rightarrow> JUndefined | Some x \<Rightarrow> x)"

definition truthy :: "jsval \<Rightarrow> bool" where
  "truthy v =
     (case v of
        JUndefined \<Rightarrow> False
      | JNull \<Rightarrow> False
      | JBool b \<Rightarrow> b
      | JNum r \<Rightarrow> r \<noteq> 0
      | JStr s \<Rightarrow> s \<noteq> []
      | JArr _ \<Rightarrow> True
      | JObj _ \<Rightarrow> True)"

definition js_or :: "jsval \<Rightarrow> jsval \<Rightarrow> jsval" where
  "js_or a b = (if truthy a then a else b)"

text \<open>
  Two functions of the JavaScript runtime are parameters of the model:
  \<^verbatim>\<open>JSON.parse\<close> (\<open>None\<close> when it throws), and the outcome of the comparison
  \<^verbatim>\<open>v > 0\<close> for a string, array or object \<open>v\<close>, which goes through the runtime's
  string-to-number conversion.  For the other values the comparison is written out.
\<close>

record runtime =
  JSON_parse :: "string \<Rightarrow> jsval option"
  coerced_gt_zero :: "jsval \<Rightarrow> bool"

definition gt_zero :: "runtime \<Rightarrow> jsval \<Rightarrow> bool" where
  "gt_zero rt v =
     (case v of
        JNum r \<Rightarrow> r > 0
      | JBool b \<Rightarrow> b
      | JNull \<Rightarrow> False
      | JUndefined \<Rightarrow> False
      | _ \<Rightarrow> coerced_gt_zero rt v)"

text \<open>
  Keys of the pending-request map are the numbers \<open>1, 2, 3, ...\<close>; \<^verbatim>\<open>Map.get(v)\<close>
  finds an entry only when \<open>v\<close> is a number equal to a key.
\<close>

definition key_of :: "jsval \<Rightarrow> nat option" where
  "key_of v =
     (case v of
        JNum r \<Rightarrow> if r = real (nat \<lfloor>r\<rfloor>) then Some (nat \<lfloor>r\<rfloor>) else None
      | _ \<Rightarrow> None)"

section \<open>Main process: MpvProcess (mpv process manager)\<close>

text \<open>
  What the instance does to the outside, in order: calls of a promise's \<^verbatim>\<open>resolve\<close>
  and \<^verbatim>\<open>reject\<close> (promises are numbered as they are created; \<open>Reject p v\<close> is
  \<^verbatim>\<open>reject(new Error(v))\<close>), writes of \<^verbatim>\<open>JSON.stringify(v) + '\n'\<close> to a socket,
  emitted events, and calls into the operating system.
\<close>

datatype effect =
    Resolve nat jsval
  | Reject nat jsval
  | SocketWrite nat jsval
  | SocketDestroy nat
  | ProcessKill nat
  | Emit string "jsval list"
  | CreateConnection string nat
  | MkdirSync string
  | WriteFileSync string string
  | SpawnProcess nat string "string list"
  | Throw string

text \<open>
  The suspended \<^verbatim>\<open>_observeDefaults\<close>: after the log-level request, or inside the loop
  with the properties still to observe.
\<close>

datatype cont = AfterLogMessages | ObserveRest "string list"

datatype timer_cb = CommandTimeout nat nat | GraceTimeout nat | ConnectSocket nat

record pending_request =
  pr_promise :: nat
  pr_timer :: nat

text \<open>
  A \<^verbatim>\<open>once('ready', ...)\<close> listener registered by \<^verbatim>\<open>command\<close>, with the \<^verbatim>\<open>done\<close>
  flag it shares with its grace timer.
\<close>

record ready_waiter =
  rw_promise :: nat
  rw_args :: "jsval list"
  rw_timer :: nat
  rw_done :: bool

record mpv =
  process :: "nat option"
  socket :: "nat option"
  ready :: bool
  filePath :: "string option"
  requestId :: nat
  pending :: "(nat, pending_request) jsmap"
  observedProps :: "(nat, string) jsmap"
  nextObsId :: nat
  recvBuf :: string
  pipeName :: string
  observeDefaults :: bool
  timers :: "(nat \<times> nat \<times> timer_cb) list"
  nextTimer :: nat
  nextPromise :: nat
  readyListeners :: "ready_waiter list"
  awaiting :: "(nat \<times> cont) list"
  microtasks :: "(cont \<times> bool) list"
  effects :: "effect list"

definition new_mpv :: "string \<Rightarrow> bool \<Rightarrow> mpv" where
  "new_mpv name observe =
     \<lparr> process = None, socket = None, ready = False, filePath = None, requestId = 0,
       pending = [], observedProps = [], nextObsId = 1, recvBuf = [], pipeName = name,
       observeDefaults = observe, timers = [], nextTimer = 0, nextPromise = 0,
       readyListeners = [], awaiting = [], microtasks = [], effects = [] \<rparr>"

definition setTimeout :: "timer_cb \<Rightarrow> nat \<Rightarrow> mpv \<Rightarrow> nat \<times> mpv" where
  "setTimeout cb delay st =
     (nextTimer st,
      st\<lparr> timers := timers st @ [(nextTimer st, delay, cb)], nextTimer := Suc (nextTimer st) \<rparr>)"

text \<open>
  Settling a promise records the call and, when \<^verbatim>\<open>_observeDefaults\<close> awaits the promise,
  queues its continuation as a microtask (\<open>True\<close>: fulfilled, \<open>False\<close>: rejected).
\<close>

definition settle :: "nat \<Rightarrow> bool \<Rightarrow> effect \<Rightarrow> mpv \<Rightarrow> mpv" where
  "settle p ok e st =
     (let st1 = st\<lparr> effects := effects st @ [e] \<rparr> in
      case map_of (awaiting st1) p of
        None \<Rightarrow> st1
      | Some k \<Rightarrow> st1\<lparr> awaiting := filter (\<lambda>a. fst a \<noteq> p) (awaiting st1),
                       microtasks := microtasks st1 @ [(k, ok)] \<rparr>)"

definition resolve :: "nat \<Rightarrow> jsval \<Rightarrow> mpv \<Rightarrow> mpv" where
  "resolve p v st = settle p True (Resolve p v) st"

definition reject :: "nat \<Rightarrow> jsval \<Rightarrow> mpv \<Rightarrow> mpv" where
  "reject p v st = settle p False (Reject p v) st"

subsection \<open>Commands\<close>

definition send :: "nat \<Rightarrow> jsval list \<Rightarrow> mpv \<Rightarrow> mpv" where
  "send p args st =
     (case socket st of
        None \<Rightarrow> resolve p JNull st
      | Some k \<Rightarrow>
          if \<not> ready st then resolve p JNull st
          else
            let ident = requestId st + 1;
                (timer, st1) = setTimeout (CommandTimeout ident p) 10000 (st\<lparr> requestId := ident \<rparr>);
                st2 = st1\<lparr> pending := jsmap_set ident \<lparr> pr_promise = p, pr_timer = timer \<rparr> (pending st1) \<rparr>
            in st2\<lparr> effects := effects st2 @
                 [SocketWrite k (JObj [(''command'', JArr args), (''request_id'', JNum (real ident))])] \<rparr>)"

definition command :: "jsval list \<Rightarrow> mpv \<Rightarrow> nat \<times> mpv" where
  "command args st =
     (let p = nextPromise st; st0 = st\<lparr> nextPromise := Suc p \<rparr> in
      if socket st0 \<noteq> None \<and> ready st0 then (p, send p args st0)
      else
        let (waitTimer, st1) = setTimeout (GraceTimeout p) 3000 st0 in
        (p, st1\<lparr> readyListeners := readyListeners st1 @
               [\<lparr> rw_promise = p, rw_args = args, rw_timer = waitTimer, rw_done = False \<rparr>] \<rparr>))"

definition ready_listener :: "ready_waiter \<Rightarrow> mpv \<Rightarrow> mpv" where
  "ready_listener w st =
     (if rw_done w then st
      else send (rw_promise w) (rw_args w)
             (st\<lparr> timers := clearTimeout (Some (rw_timer w)) (timers st) \<rparr>))"

definition emit_ready :: "mpv \<Rightarrow> mpv" where
  "emit_ready st =
     foldl (\<lambda>s w. ready_listener w s)
       (st\<lparr> readyListeners := [], effects := effects st @ [Emit ''ready'' []] \<rparr>)
       (readyListeners st)"

definition grace_timeout :: "nat \<Rightarrow> mpv \<Rightarrow> mpv" where
  "grace_timeout p st =
     (if list_ex (\<lambda>w. rw_promise w = p \<and> \<not> rw_done w) (readyListeners st)
      then resolve p JNull
             (st\<lparr> readyListeners :=
                   map (\<lambda>w. if rw_promise w = p then w\<lparr> rw_done := True \<rparr> else w) (readyListeners st) \<rparr>)
      else st)"

definition setProperty :: "string \<Rightarrow> jsval \<Rightarrow> mpv \<Rightarrow> nat \<times> mpv" where
  "setProperty name val st = command [JStr ''set_property'', JStr name, val] st"

definition getProperty :: "string \<Rightarrow> mpv \<Rightarrow> nat \<times> mpv" where
  "getProperty name st = command [JStr ''get_property'', JStr name] st"

definition observeProperty :: "string \<Rightarrow> mpv \<Rightarrow> nat \<times> mpv" where
  "observeProperty name st =
     (let ident = nextObsId st in
      command [JStr ''observe_property'', JNum (real ident), JStr name]
        (st\<lparr> nextObsId := Suc ident, observedProps := jsmap_set ident name (observedProps st) \<rparr>))"

definition loadFile :: "string \<Rightarrow> mpv \<Rightarrow> nat \<times> mpv" where
  "loadFile path st = command [JStr ''loadfile'', JStr path, JStr ''replace''] (st\<lparr> filePath := Some path \<rparr>)"

subsection \<open>Default observation\<close>

definition default_props :: "string list" where
  "default_props =
     [''time-pos'', ''duration'', ''pause'', ''volume'', ''mute'', ''speed'', ''eof-reached'',
      ''track-list'', ''chapter-list'', ''chapter'', ''media-title'', ''video-params'',
      ''demuxer-cache-state'', ''sub-delay'', ''sub-visibility'', ''estimated-vf-fps'',
      ''video-bitrate'', ''audio-bitrate'', ''drop-frame-count'', ''paused-for-cache'', ''seeking'']"

definition await_promise :: "nat \<Rightarrow> cont \<Rightarrow> mpv \<Rightarrow> mpv" where
  "await_promise p k st = st\<lparr> awaiting := awaiting st @ [(p, k)] \<rparr>"

text \<open>
  One turn of the loop \<^verbatim>\<open>for (const p of props) await this.observeProperty(p)\<close>: it
  issues the request for the next property and suspends on its promise.
\<close>

definition observe_loop :: "string list \<Rightarrow> mpv \<Rightarrow> mpv" where
  "observe_loop props st =
     (case props of
        [] \<Rightarrow> st
      | p # rest \<Rightarrow> (case observeProperty p st of (q, st1) \<Rightarrow> await_promise q (ObserveRest rest) st1))"

definition observeDefaults_start :: "mpv \<Rightarrow> mpv" where
  "observeDefaults_start st =
     (case command [JStr ''request_log_messages'', JStr ''debug''] st of
        (q, st1) \<Rightarrow> await_promise q AfterLogMessages st1)"

text \<open>
  Resuming after an \<^verbatim>\<open>await\<close>.  The first await has a \<^verbatim>\<open>catch\<close>, so the loop starts
  either way; a rejected \<^verbatim>\<open>observeProperty\<close> ends the function (its own promise is
  rejected, which nobody observes).
\<close>

definition resume :: "cont \<Rightarrow> bool \<Rightarrow> mpv \<Rightarrow> mpv" where
  "resume k ok st =
     (case k of
        AfterLogMessages \<Rightarrow> observe_loop default_props st
      | ObserveRest rest \<Rightarrow> if ok then observe_loop rest st else st)"

definition run_microtask :: "mpv \<Rightarrow> mpv" where
  "run_microtask st =
     (case microtasks st of
        [] \<Rightarrow> st
      | (k, ok) # rest \<Rightarrow> resume k ok (st\<lparr> microtasks := rest \<rparr>))"

subsection \<open>Incoming messages\<close>

definition emit :: "string \<Rightarrow> jsval list \<Rightarrow> mpv \<Rightarrow> mpv" where
  "emit name args st = st\<lparr> effects := effects st @ [Emit name args] \<rparr>"

definition handle_response :: "jsval \<Rightarrow> jsval \<Rightarrow> mpv \<Rightarrow> mpv" where
  "handle_response msg rid st =
     (case key_of rid of
        None \<Rightarrow> st
      | Some ident \<Rightarrow>
          (case jsmap_get ident (pending st) of
             None \<Rightarrow> st
           | Some p \<Rightarrow>
               let st1 = st\<lparr> timers := clearTimeout (Some (pr_timer p)) (timers st),
                              pending := jsmap_delete ident (pending st) \<rparr>
               in if field msg ''error'' = JStr ''success''
                  then resolve (pr_promise p) (field msg ''data'') st1
                  else reject (pr_promise p) (js_or (field msg ''error'') (JStr ''mpv error'')) st1))"

definition handle_event :: "jsval \<Rightarrow> mpv \<Rightarrow> mpv" where
  "handle_event msg st =
     (let ev = field msg ''event'' in
      if \<not> truthy ev then st
      else
        let st1 = emit ''mpv-event'' [msg] st in
        if ev = JStr ''log-message'' then emit ''log-message'' [msg] st1
        else if ev = JStr ''property-change''
          then emit ''property-change'' [field msg ''name'', field msg ''data'', field msg ''id''] st1
        else if ev = JStr ''file-loaded'' then emit ''file-loaded'' [] st1
        else if ev = JStr ''end-file''
          then emit ''end-file''
                 [JObj [(''reason'', field msg ''reason''),
                        (''error'', js_or (field msg ''error'') JNull)]] st1
        else if ev = JStr ''seek'' then emit ''seek'' [] st1
        else if ev = JStr ''playback-restart'' then emit ''playback-restart'' [] st1
        else if ev = JStr ''client-message''
          then emit ''client-message'' [js_or (field msg ''args'') (JArr [])] st1
        else st1)"

text \<open>\<open>None\<close>: the first property access threw, before anything was done.\<close>

definition handleMessage :: "runtime \<Rightarrow> jsval \<Rightarrow> mpv \<Rightarrow> mpv option" where
  "handleMessage rt msg st =
     (case get_field msg ''request_id'' of
        None \<Rightarrow> None
      | Some rid \<Rightarrow>
          Some (if rid \<noteq> JUndefined \<and> gt_zero rt rid then handle_response msg rid st
                else handle_event msg st))"

text \<open>The body of \<^verbatim>\<open>try { ... } catch { }\<close> for a parsed message: a throw is dropped.\<close>

definition dispatch :: "runtime \<Rightarrow> jsval \<Rightarrow> mpv \<Rightarrow> mpv" where
  "dispatch rt msg st = (case handleMessage rt msg st of None \<Rightarrow> st | Some st1 \<Rightarrow> st1)"

subsection \<open>Receiving bytes\<close>

text \<open>
  \<^verbatim>\<open>chunk.toString('utf-8')\<close>.  Modelled from the runtime's documentation: well-formed
  UTF-8 is kept, and every maximal ill-formed byte sequence (a byte that cannot start a
  character, or a character cut short) becomes U+FFFD, whose UTF-8 bytes are EF BF BD.
\<close>

definition replacement :: string where
  "replacement = [CHR 0xEF, CHR 0xBF, CHR 0xBD]"

definition byte_in :: "nat \<Rightarrow> nat \<Rightarrow> char \<Rightarrow> bool" where
  "byte_in lo hi c = (lo \<le> of_char c \<and> of_char c \<le> hi)"

definition second_lo :: "char \<Rightarrow> nat" where
  "second_lo b = (if of_char b = (0xE0::nat) then 0xA0 else if of_char b = (0xF0::nat) then 0x90 else 0x80)"

definition second_hi :: "char \<Rightarrow> nat" where
  "second_hi b = (if of_char b = (0xED::nat) then 0x9F else if of_char b = (0xF4::nat) then 0x8F else 0xBF)"

fun utf8_toString :: "string \<Rightarrow> string" where
  "utf8_toString [] = []"
| "utf8_toString (b # bs) =
     (if byte_in 0 0x7F b then b # utf8_toString bs
      else if byte_in 0xC2 0xDF b then
        (case bs of
           [] \<Rightarrow> replacement
         | c # bs1 \<Rightarrow>
             if byte_in 0x80 0xBF c then b # c # utf8_toString bs1
             else replacement @ utf8_toString bs)
      else if byte_in 0xE0 0xEF b then
        (case bs of
           [] \<Rightarrow> replacement
         | c # bs1 \<Rightarrow>
             if byte_in (second_lo b) (second_hi b) c then
               (case bs1 of
                  [] \<Rightarrow> replacement
                | d # bs2 \<Rightarrow>
                    if byte_in 0x80 0xBF d then b # c # d # utf8_toString bs2
                    else replacement @ utf8_toString bs1)
             else replacement @ utf8_toString bs)
      else if byte_in 0xF0 0xF4 b then
        (case bs of
           [] \<Rightarrow> replacement
         | c # bs1 \<Rightarrow>
             if byte_in (second_lo b) (second_hi b) c then
               (case bs1 of
                  [] \<Rightarrow> replacement
                | d # bs2 \<Rightarrow>
                    if byte_in 0x80 0xBF d then
                      (case bs2 of
                         [] \<Rightarrow> replacement
                       | e # bs3 \<Rightarrow>
                           if byte_in 0x80 0xBF e then b # c # d # e # utf8_toString bs3
                           else replacement @ utf8_toString bs2)
                    else replacement @ utf8_toString bs1)
             else replacement @ utf8_toString bs)
      else replacement @ utf8_toString bs)"

text \<open>\<^verbatim>\<open>s.split('\n')\<close>: never empty; the last element is what follows the last newline.\<close>

fun split_newline :: "string \<Rightarrow> string list" where
  "split_newline [] = [[]]"
| "split_newline (c # cs) =
     (if c = CHR 0x0A then [] # split_newline cs
      else (c # hd (split_newline cs)) # tl (split_newline cs))"

text \<open>
  \<^verbatim>\<open>!line.trim()\<close>: the line consists of white space and line terminators only
  (U+0009 to U+000D, U+0020, U+00A0, U+1680, U+2000 to U+200A, U+2028, U+2029, U+202F,
  U+205F, U+3000, U+FEFF), read off the UTF-8 bytes.
\<close>

fun blank :: "string \<Rightarrow> bool" where
  "blank [] = True"
| "blank (c # cs) =
     (if byte_in 0x09 0x0D c \<or> of_char c = (0x20::nat) then blank cs
      else if of_char c = (0xC2::nat) then
        (case cs of d # cs1 \<Rightarrow> of_char d = (0xA0::nat) \<and> blank cs1 | [] \<Rightarrow> False)
      else if byte_in 0xE1 0xEF c then
        (case cs of
           d # e # cs2 \<Rightarrow>
             (let x = (of_char c :: nat); y = (of_char d :: nat); z = (of_char e :: nat) in
              ((x = 0xE1 \<and> y = 0x9A \<and> z = 0x80) \<or>
               (x = 0xE2 \<and> y = 0x80 \<and> (byte_in 0x80 0x8A e \<or> z = 0xA8 \<or> z = 0xA9 \<or> z = 0xAF)) \<or>
               (x = 0xE2 \<and> y = 0x81 \<and> z = 0x9F) \<or>
               (x = 0xE3 \<and> y = 0x80 \<and> z = 0x80) \<or>
               (x = 0xEF \<and> y = 0xBB \<and> z = 0xBF)) \<and> blank cs2)
         | _ \<Rightarrow> False)
      else False)"

definition on_line :: "runtime \<Rightarrow> mpv \<Rightarrow> string \<Rightarrow> mpv" where
  "on_line rt st line =
     (if blank line then st
      else (case JSON_parse rt line of None \<Rightarrow> st | Some msg \<Rightarrow> dispatch rt msg st))"

definition onText :: "runtime \<Rightarrow> string \<Rightarrow> mpv \<Rightarrow> mpv" where
  "onText rt text st =
     (let lines = split_newline (recvBuf st @ text) in
      foldl (on_line rt) (st\<lparr> recvBuf := last lines \<rparr>) (butlast lines))"

definition onData :: "runtime \<Rightarrow> string \<Rightarrow> mpv \<Rightarrow> mpv" where
  "onData rt chunk st = onText rt (utf8_toString chunk) st"

subsection \<open>Socket, process and timers\<close>

definition connectSocket :: "nat \<Rightarrow> mpv \<Rightarrow> mpv" where
  "connectSocket retries st = st\<lparr> effects := effects st @ [CreateConnection (pipeName st) retries] \<rparr>"

definition on_connect :: "nat \<Rightarrow> mpv \<Rightarrow> mpv" where
  "on_connect sock st =
     (let st1 = emit_ready (st\<lparr> socket := Some sock, ready := True, recvBuf := [] \<rparr>) in
      if observeDefaults st1 then observeDefaults_start st1 else st1)"

definition on_socket_error :: "nat \<Rightarrow> string \<Rightarrow> mpv \<Rightarrow> mpv" where
  "on_socket_error retries message st =
     (if retries > 0 then snd (setTimeout (ConnectSocket (retries - 1)) 200 st)
      else emit ''error'' [JStr (''Could not connect to mpv IPC pipe: '' @ message)] st)"

definition on_socket_close :: "mpv \<Rightarrow> mpv" where
  "on_socket_close st = st\<lparr> socket := None, ready := False \<rparr>"

definition on_process_error :: "string \<Rightarrow> mpv \<Rightarrow> mpv" where
  "on_process_error message st = (emit ''error'' [JStr message] st)\<lparr> ready := False \<rparr>"

definition on_process_exit :: "jsval \<Rightarrow> mpv \<Rightarrow> mpv" where
  "on_process_exit code st = (emit ''exit'' [code] st)\<lparr> ready := False, socket := None, process := None \<rparr>"

definition on_stdout :: "string \<Rightarrow> mpv \<Rightarrow> mpv" where
  "on_stdout text st = emit ''log'' [JStr text] (emit ''stdout-log'' [JStr text] st)"

definition on_stderr :: "string \<Rightarrow> mpv \<Rightarrow> mpv" where
  "on_stderr text st = emit ''log'' [JStr text] (emit ''stderr-log'' [JStr text] st)"

definition grace_or_timeout :: "timer_cb \<Rightarrow> mpv \<Rightarrow> mpv" where
  "grace_or_timeout cb st =
     (case cb of
        CommandTimeout ident p \<Rightarrow>
          reject p (JStr ''mpv command timed out'') (st\<lparr> pending := jsmap_delete ident (pending st) \<rparr>)
      | GraceTimeout p \<Rightarrow> grace_timeout p st
      | ConnectSocket retries \<Rightarrow> connectSocket retries st)"

text \<open>An armed timer fires once: it leaves the armed timers and its callback runs.\<close>

definition fire_timer :: "nat \<Rightarrow> mpv \<Rightarrow> mpv" where
  "fire_timer h st =
     (case map_of (timers st) h of
        None \<Rightarrow> st
      | Some (delay, cb) \<Rightarrow> grace_or_timeout cb (st\<lparr> timers := clearTimeout (Some h) (timers st) \<rparr>))"

subsection \<open>Lifecycle\<close>

definition reject_destroyed :: "mpv \<Rightarrow> nat \<times> pending_request \<Rightarrow> mpv" where
  "reject_destroyed st e =
     reject (pr_promise (snd e)) (JStr ''mpv destroyed'')
       (st\<lparr> timers := clearTimeout (Some (pr_timer (snd e))) (timers st) \<rparr>)"

definition destroy :: "mpv \<Rightarrow> mpv" where
  "destroy st =
     (let st1 = (case socket st of
                   None \<Rightarrow> st
                 | Some sock \<Rightarrow>
                     (let st0 = snd (command [JStr ''quit''] st) in
                      st0\<lparr> effects := effects st0 @ [SocketDestroy sock], socket := None \<rparr>));
          st2 = (case process st1 of
                   None \<Rightarrow> st1
                 | Some h \<Rightarrow> st1\<lparr> effects := effects st1 @ [ProcessKill h], process := None \<rparr>);
          st3 = st2\<lparr> ready := False \<rparr>;
          st4 = foldl reject_destroyed st3 (pending st3)
      in st4\<lparr> pending := [] \<rparr>)"

subsection \<open>Spawning the engine\<close>

text \<open>
  The options of \<^verbatim>\<open>spawn\<close>: a string option is \<open>None\<close> when the key is absent;
  \<open>attachWindow\<close> is \<open>False\<close> only for \<^verbatim>\<open>attachWindow: false\<close> and
  \<open>enableYtdlRawOptions\<close> is \<open>True\<close> only for \<^verbatim>\<open>enableYtdlRawOptions: true\<close>.
  The native handle is the integer read from the buffer, \<open>None\<close> for \<^verbatim>\<open>null\<close>.
  What the file system and the path functions answer is collected in \<open>spawn_env\<close>.
\<close>

record spawn_opts =
  attachWindow :: bool
  mpvPath :: "string option"
  ytdlPath :: "string option"
  cookiesPath :: "string option"
  screenshotDir :: "string option"
  hwdec :: "string option"
  ytdlUserAgent :: "string option"
  enableYtdlRawOptions :: bool

record spawn_env =
  se_findBinary :: string
  se_findYtDlpBinary :: "string option"
  se_cookies :: string
  se_screenshots :: string
  se_inputConfPath :: string
  se_existsSync :: "string \<Rightarrow> bool"
  se_mkdir_error :: "string option"

definition or_else :: "string option \<Rightarrow> string \<Rightarrow> string" where
  "or_else a b = (case a of None \<Rightarrow> b | Some s \<Rightarrow> if s = [] then b else s)"

definition or_maybe :: "string option \<Rightarrow> string option \<Rightarrow> string option" where
  "or_maybe a b = (case a of None \<Rightarrow> b | Some s \<Rightarrow> if s = [] then b else Some s)"

fun decimal :: "nat \<Rightarrow> string" where
  "decimal n = (if n < 10 then [char_of (48 + n)] else decimal (n div 10) @ [char_of (48 + n mod 10)])"

definition join_with :: "string \<Rightarrow> string list \<Rightarrow> string" where
  "join_with sep xs = (case xs of [] \<Rightarrow> [] | x # rest \<Rightarrow> x @ concat (map (\<lambda>y. sep @ y) rest))"

definition inputConfContent :: string where
  "inputConfContent = join_with [CHR 0x0A]
     [''# Hybrid Player '' @ [CHR 0xE2, CHR 0x80, CHR 0x93] @ '' mpv input bindings'',
      ''# Relays input from mpv VO back to Electron main process'',
      '''',
      ''# Keyboard (active when mpv native surface has OS focus)'',
      ''f    script-message hybrid-toggle-fullscreen'',
      ''F    script-message hybrid-toggle-fullscreen'',
      ''ESC  script-message hybrid-exit-fullscreen'',
      ''Escape script-message hybrid-exit-fullscreen'',
      ''SPACE script-message hybrid-toggle-play'',
      ''LEFT  script-message hybrid-seek-back-5'',
      ''RIGHT script-message hybrid-seek-forward-5'',
      ''m    script-message hybrid-toggle-mute'',
      '''',
      ''# Mouse'',
      ''MBTN_LEFT     script-message hybrid-mouse-click'',
      ''MBTN_LEFT_DBL script-message hybrid-mouse-dblclick'',
      ''MOUSE_BTN0    script-message hybrid-mouse-click'',
      ''MOUSE_BTN0_DBL script-message hybrid-mouse-dblclick'']"

definition defaultUserAgent :: string where
  "defaultUserAgent =
     ''Mozilla/5.0 (Windows NT 10.0; Win64; x64) AppleWebKit/537.36 (KHTML, like Gecko) Chrome/132.0.0.0 Safari/537.36''"

definition spawn_args :: "spawn_env \<Rightarrow> string \<Rightarrow> nat option \<Rightarrow> spawn_opts \<Rightarrow> string list" where
  "spawn_args env pipe nativeHandle opts =
     (let hwnd = (if attachWindow opts then nativeHandle else None);
          ytDlpPath = or_maybe (ytdlPath opts) (se_findYtDlpBinary env);
          cookies = or_else (cookiesPath opts) (se_cookies env);
          shots = or_else (screenshotDir opts) (se_screenshots env);
          ytdlRawOptions =
            (if enableYtdlRawOptions opts
             then [''user-agent='' @ or_else (ytdlUserAgent opts) defaultUserAgent] @
                  (if se_existsSync env cookies then [''cookies='' @ cookies] else [])
             else [])
      in
      [''--idle=yes'', ''--keep-open=yes'', ''--no-terminal'', ''--no-osc'', ''--no-osd-bar'',
       ''--osd-level=0'',
       ''--input-ipc-server='' @ pipe,
       ''--hwdec='' @ or_else (hwdec opts) ''auto-safe'',
       ''--vo=gpu'', ''--ytdl=yes'', ''--sub-auto=fuzzy'', ''--sub-file-paths=subs:subtitles'',
       ''--screenshot-directory='' @ shots,
       ''--screenshot-template=hybrid-player-%tY-%tm-%td-%tH-%tM-%tS'',
       ''--screenshot-format=png'', ''--no-config'', ''--input-default-bindings=no'',
       ''--input-conf='' @ se_inputConfPath env,
       ''--cursor-autohide=no'']
      @ (case ytDlpPath of
           None \<Rightarrow> []
         | Some y \<Rightarrow>
             if y = [] then []
             else [''--script-opts=ytdl_hook-ytdl_path='' @
                   map (\<lambda>c. if c = CHR 0x5C then CHR ''/'' else c) y])
      @ (if ytdlRawOptions \<noteq> [] then [''--ytdl-raw-options='' @ join_with '','' ytdlRawOptions] else [])
      @ (if attachWindow opts
         then [''--wid='' @ (case hwnd of None \<Rightarrow> ''null'' | Some n \<Rightarrow> decimal n)]
         else [''--force-window=no'', ''--mute=yes'', ''--pause=yes'', ''--audio=no'']))"

text \<open>
  \<^verbatim>\<open>spawn(nativeHandle, opts)\<close>; \<open>h\<close> is the child process the operating system
  hands back.  A failing \<^verbatim>\<open>mkdirSync\<close> throws out of the function.
\<close>

definition spawn :: "spawn_env \<Rightarrow> nat \<Rightarrow> nat option \<Rightarrow> spawn_opts \<Rightarrow> mpv \<Rightarrow> mpv" where
  "spawn env h nativeHandle opts st =
     (if process st \<noteq> None then st
      else
        let shots = or_else (screenshotDir opts) (se_screenshots env);
            st1 = (if \<not> se_existsSync env shots
                   then st\<lparr> effects := effects st @ [MkdirSync shots] \<rparr> else st)
        in
        (case (if \<not> se_existsSync env shots then se_mkdir_error env else None) of
           Some err \<Rightarrow> st1\<lparr> effects := effects st1 @ [Throw err] \<rparr>
         | None \<Rightarrow>
             let st2 = st1\<lparr> effects := effects st1 @
                          [WriteFileSync (se_inputConfPath env) inputConfContent,
                           SpawnProcess h (or_else (mpvPath opts) (se_findBinary env))
                             (spawn_args env (pipeName st1) nativeHandle opts)],
                        process := Some h \<rparr>
             in snd (setTimeout (ConnectSocket 10) 300 st2)))"

subsection \<open>Events\<close>

text \<open>
  Everything that can happen to an instance: calls of its methods, events of its socket
  and child process, timers firing, one message handled, and one microtask run.  After
  a handler of the host the microtasks run until the queue is empty; the sequences
  considered below contain every such schedule.
\<close>

datatype event =
    CallSpawn nat "nat option" spawn_opts
  | CallCommand "jsval list"
  | CallObserveProperty string
  | CallLoadFile string
  | CallDestroy
  | TimerFire nat
  | SockConnect nat
  | SockData string
  | Incoming jsval
  | SockError nat string
  | SockClose
  | ProcStdout string
  | ProcStderr string
  | ProcError string
  | ProcExit jsval
  | Microtask

definition step :: "runtime \<Rightarrow> spawn_env \<Rightarrow> mpv \<Rightarrow> event \<Rightarrow> mpv" where
  "step rt env st e =
     (case e of
        CallSpawn h nativeHandle opts \<Rightarrow> spawn env h nativeHandle opts st
      | CallCommand args \<Rightarrow> snd (command args st)
      | CallObserveProperty name \<Rightarrow> snd (observeProperty name st)
      | CallLoadFile path \<Rightarrow> snd (loadFile path st)
      | CallDestroy \<Rightarrow> destroy st
      | TimerFire h \<Rightarrow> fire_timer h st
      | SockConnect sock \<Rightarrow> on_connect sock st
      | SockData chunk \<Rightarrow> onData rt chunk st
      | Incoming msg \<Rightarrow> dispatch rt msg st
      | SockError retries message \<Rightarrow> on_socket_error retries message st
      | SockClose \<Rightarrow> on_socket_close st
      | ProcStdout text \<Rightarrow> on_stdout text st
      | ProcStderr text \<Rightarrow> on_stderr text st
      | ProcError message \<Rightarrow> on_process_error message st
      | ProcExit code \<Rightarrow> on_process_exit code st
      | Microtask \<Rightarrow> run_microtask st)"

definition run :: "runtime \<Rightarrow> spawn_env \<Rightarrow> mpv \<Rightarrow> event list \<Rightarrow> mpv" where
  "run rt env st es = foldl (step rt env) st es"

subsection \<open>Bookkeeping invariants\<close>

text \<open>How often the promise \<open>p\<close> has been resolved or rejected in a log of effects.\<close>

definition settles :: "nat \<Rightarrow> effect \<Rightarrow> bool" where
  "settles p e = (case e of Resolve q _ \<Rightarrow> q = p | Reject q _ \<Rightarrow> q = p | _ \<Rightarrow> False)"

definition settled :: "nat \<Rightarrow> effect list \<Rightarrow> nat" where
  "settled p es = length (filter (settles p) es)"

text \<open>
  The promises that are still to be settled: those of the pending requests and those of
  the commands waiting for readiness.
\<close>

definition open_promises :: "mpv \<Rightarrow> nat list" where
  "open_promises st =
     map (\<lambda>e. pr_promise (snd e)) (pending st) @
     map rw_promise (filter (\<lambda>w. \<not> rw_done w) (readyListeners st))"

definition inv_timers :: "mpv \<Rightarrow> bool" where
  "inv_timers st =
     (distinct (map fst (timers st)) \<and> (\<forall>t \<in> set (timers st). fst t < nextTimer st))"

definition inv_keys :: "mpv \<Rightarrow> bool" where
  "inv_keys st =
     (distinct (map fst (pending st)) \<and> (\<forall>e \<in> set (pending st). fst e \<le> requestId st))"

text \<open>
  Every pending request has its timeout timer armed, and every armed timeout timer
  belongs to the pending request it names.
\<close>

definition inv_pending :: "mpv \<Rightarrow> bool" where
  "inv_pending st =
     ((\<forall>e \<in> set (pending st).
         (pr_timer (snd e), 10000, CommandTimeout (fst e) (pr_promise (snd e))) \<in> set (timers st)) \<and>
      (\<forall>t \<in> set (timers st). \<forall>k p. snd (snd t) = CommandTimeout k p \<longrightarrow>
         (k, \<lparr> pr_promise = p, pr_timer = fst t \<rparr>) \<in> set (pending st)))"

text \<open>
  Every command still waiting for readiness has its grace timer armed, and every armed
  grace timer belongs to such a command.
\<close>

definition inv_waiters :: "mpv \<Rightarrow> bool" where
  "inv_waiters st =
     ((\<forall>w \<in> set (readyListeners st). \<not> rw_done w \<longrightarrow>
         (rw_timer w, 3000, GraceTimeout (rw_promise w)) \<in> set (timers st)) \<and>
      (\<forall>t \<in> set (timers st). \<forall>p. snd (snd t) = GraceTimeout p \<longrightarrow>
         (\<exists>w \<in> set (readyListeners st). rw_promise w = p \<and> rw_timer w = fst t \<and> \<not> rw_done w)))"

text \<open>
  The open promises, together with promises \<open>xs\<close> that a running function holds in
  its hands, are pairwise different, have been created, and have not been settled; no
  promise has been settled twice, and none before it was created.
\<close>

definition inv_promises :: "nat list \<Rightarrow> mpv \<Rightarrow> bool" where
  "inv_promises xs st =
     (distinct (xs @ open_promises st) \<and>
      (\<forall>p \<in> set (xs @ open_promises st). p < nextPromise st \<and> settled p (effects st) = 0) \<and>
      (\<forall>p. settled p (effects st) \<le> 1) \<and>
      (\<forall>p. nextPromise st \<le> p \<longrightarrow> settled p (effects st) = 0))"

definition inv_x :: "nat list \<Rightarrow> mpv \<Rightarrow> bool" where
  "inv_x xs st = (inv_timers st \<and> inv_keys st \<and> inv_pending st \<and> inv_waiters st \<and> inv_promises xs st)"

definition inv :: "mpv \<Rightarrow> bool" where
  "inv st = inv_x [] st"

text \<open>The instance after the best-effort \<^verbatim>\<open>quit\<close> that \<^verbatim>\<open>destroy\<close> issues when it has a socket.\<close>

definition after_quit :: "mpv \<Rightarrow> mpv" where
  "after_quit st = (if socket st = None then st else snd (command [JStr ''quit''] st))"

text \<open>The observation ids registered so far are \<open>1, 2, ...\<close> up to the next one, in order.\<close>

definition inv_obs :: "mpv \<Rightarrow> bool" where
  "inv_obs st = (1 \<le> nextObsId st \<and> map fst (observedProps st) = [1..<nextObsId st])"

definition obs_view :: "mpv \<Rightarrow> (nat, string) jsmap \<times> nat \<times> bool" where
  "obs_view st = (observedProps st, nextObsId st, observeDefaults st)"


subsection \<open>The default observation at work\<close>

text \<open>The frames written to the socket, in order.\<close>

definition written :: "effect list \<Rightarrow> jsval list" where
  "written es = concat (map (\<lambda>e. case e of SocketWrite k m \<Rightarrow> [m] | _ \<Rightarrow> []) es)"

text \<open>The frame that \<^verbatim>\<open>command(...args)\<close> writes under request id \<open>rid\<close>.\<close>

definition frame :: "jsval list \<Rightarrow> nat \<Rightarrow> jsval" where
  "frame args rid = JObj [(''command'', JArr args), (''request_id'', JNum (real rid))]"

definition observe_frame :: "nat \<Rightarrow> string \<Rightarrow> nat \<Rightarrow> jsval" where
  "observe_frame ident name rid = frame [JStr ''observe_property'', JNum (real ident), JStr name] rid"

text \<open>The reply of mpv to request \<open>rid\<close> when the command succeeded.\<close>

definition ack :: "nat \<Rightarrow> jsval" where
  "ack rid = JObj [(''request_id'', JNum (real rid)), (''error'', JStr ''success'')]"

text \<open>
  \<open>n\<close> requests answered one after the other, from request id \<open>rid\<close> on: each reply
  arrives and the continuation it wakes runs.
\<close>

fun acks :: "nat \<Rightarrow> nat \<Rightarrow> event list" where
  "acks rid 0 = []"
| "acks rid (Suc n) = Incoming (ack rid) # Microtask # acks (Suc rid) n"

text \<open>
  \<^verbatim>\<open>_observeDefaults\<close> is suspended at continuation \<open>c\<close>, on the promise of the request
  issued last, and nothing else is waiting to run.
\<close>

definition suspended :: "cont \<Rightarrow> mpv \<Rightarrow> bool" where
  "suspended c st =
     (ready st \<and> socket st \<noteq> None \<and> microtasks st = [] \<and> 0 < requestId st \<and>
      (case jsmap_get (requestId st) (pending st) of
         None \<Rightarrow> False
       | Some p \<Rightarrow> awaiting st = [(pr_promise p, c)]))"

text \<open>An instance on which nothing is waiting: no command queued for readiness, no coroutine.\<close>

definition quiet :: "mpv \<Rightarrow> bool" where
  "quiet st = (readyListeners st = [] \<and> awaiting st = [] \<and> microtasks st = [])"

text \<open>The frames of \<^verbatim>\<open>observeProperty\<close> called for each name in turn.\<close>

fun observe_frames :: "nat \<Rightarrow> nat \<Rightarrow> string list \<Rightarrow> jsval list" where
  "observe_frames ident rid [] = []"
| "observe_frames ident rid (p # ps) = observe_frame ident p rid # observe_frames (Suc ident) (Suc rid) ps"
subsection \<open>Sample instances\<close>

text \<open>A connected instance without default observation, and the same with three commands in flight.\<close>

definition sample_rt :: runtime where
  "sample_rt = \<lparr> JSON_parse = (\<lambda>_. None), coerced_gt_zero = (\<lambda>_. False) \<rparr>"

definition connected :: mpv where
  "connected = on_connect 5 (new_mpv ''pipe'' False)"

definition three_in_flight :: mpv where
  "three_in_flight =
     snd (command [JStr ''get_property'', JStr ''volume'']
       (snd (command [JStr ''get_property'', JStr ''pause'']
          (snd (command [JStr ''get_property'', JStr ''duration''] connected)))))"

definition sample_env :: spawn_env where
  "sample_env = \<lparr> se_findBinary = ''mpv'', se_findYtDlpBinary = None, se_cookies = ''cookies.txt'',
     se_screenshots = ''screenshots'', se_inputConfPath = ''input.conf'',
     se_existsSync = (\<lambda>_. True), se_mkdir_error = None \<rparr>"

text \<open>A connected instance with one command in flight, as a run from a new instance.\<close>

definition one_in_flight :: mpv where
  "one_in_flight = run sample_rt sample_env (new_mpv ''pipe'' False)
     [SockConnect 5, CallCommand [JStr ''get_property'', JStr ''duration'']]"

text \<open>A spawned, connected instance with two commands in flight.\<close>

definition headless_opts :: spawn_opts where
  "headless_opts = \<lparr> attachWindow = False, mpvPath = None, ytdlPath = None, cookiesPath = None,
     screenshotDir = None, hwdec = None, ytdlUserAgent = None, enableYtdlRawOptions = False \<rparr>"

definition two_in_flight :: mpv where
  "two_in_flight = run sample_rt sample_env (new_mpv ''pipe'' False)
     [CallSpawn 9 None headless_opts, TimerFire 0, SockConnect 5,
      CallCommand [JStr ''get_property'', JStr ''duration''],
      CallCommand [JStr ''get_property'', JStr ''pause'']]"

text \<open>An instance just spawned, and one on which a command was issued before any connection.\<close>

definition just_spawned :: mpv where
  "just_spawned = run sample_rt sample_env (new_mpv ''pipe'' False) [CallSpawn 9 None headless_opts]"

definition waiting_command :: mpv where
  "waiting_command = run sample_rt sample_env (new_mpv ''pipe'' False)
     [CallCommand [JStr ''get_property'', JStr ''duration'']]"

text \<open>An instance with default observation, spawned, its connect timer fired: about to connect.\<close>

definition spawned_observing :: mpv where
  "spawned_observing = run sample_rt sample_env (new_mpv ''pipe'' True)
     [CallSpawn 9 None headless_opts, TimerFire 0]"
chapter \<open>Properties\<close>

section \<open>Thumbnail requester\<close>

lemma clearTimeout_subset: "set (clearTimeout h ts) \<subseteq> set ts"
  by (auto simp: clearTimeout_def split: option.splits)

lemma th_inv_init: "th_inv (th_init el)"
  by (simp add: th_inv_def th_tokens_def th_init_def)

lemma capture_tokens: "th_tokens (capture time token s) \<subseteq> insert token (th_tokens s)"
  by (auto simp: capture_def th_tokens_def)

lemma capture_token: "th_requestToken (capture time token s) = th_requestToken s"
  by (simp add: capture_def)

lemma apply_result_token: "th_requestToken (apply_result tok r s) = th_requestToken s"
  by (simp add: apply_result_def split: capture_result.splits option.splits)

lemma apply_result_tokens: "th_tokens (apply_result tok r s) = th_tokens s"
  by (simp add: apply_result_def th_tokens_def split: capture_result.splits option.splits)

lemma capture_resume_token: "th_requestToken (capture_resume c r s) = th_requestToken s"
  by (simp add: capture_resume_def Let_def capture_token apply_result_token split: option.splits)

lemma capture_resume_tokens: "th_tokens (capture_resume c r s) \<subseteq> th_tokens s"
proof -
  let ?s1 = "(apply_result (snd c) r s)\<lparr> th_pending := False \<rparr>"
  have t1: "th_tokens ?s1 = th_tokens s"
    using apply_result_tokens[of "snd c" r s] by (simp add: th_tokens_def)
  show ?thesis
  proof (cases "th_queuedCapture ?s1")
    case None
    then show ?thesis using t1 by (simp add: capture_resume_def Let_def)
  next
    case (Some q)
    let ?s2 = "?s1\<lparr> th_queuedCapture := None \<rparr>"
    have q: "snd q \<in> th_tokens ?s1" using Some by (simp add: th_tokens_def)
    have t2: "th_tokens ?s2 \<subseteq> th_tokens ?s1" by (auto simp: th_tokens_def)
    have "th_tokens (capture (fst q) (snd q) ?s2) \<subseteq> th_tokens ?s1"
      using capture_tokens[of "fst q" "snd q" ?s2] q t2 by auto
    then show ?thesis using Some t1 t2 by (auto simp: capture_resume_def Let_def)
  qed
qed

lemma th_step_token_mono: "th_requestToken s \<le> th_requestToken (th_step s e)"
  by (cases e) (auto simp: th_step_def generatePreview_def Let_def capture_token capture_resume_token
      cancelPending_def thumbnails_destroy_def split: option.splits)

lemma th_run_token_mono: "th_requestToken s \<le> th_requestToken (th_run s es)"
  unfolding th_run_def
proof (induction es arbitrary: s)
  case Nil
  then show ?case by simp
next
  case (Cons e es)
  then show ?case using th_step_token_mono le_trans by (metis foldl_Cons)
qed


lemma clearTimeout_tokens: "(snd \<circ> snd) ` set (clearTimeout h ts) \<subseteq> (snd \<circ> snd) ` set ts"
  using clearTimeout_subset by (metis image_mono)

lemma th_inv_iff:
  "th_inv s \<longleftrightarrow>
     (\<forall>c \<in> set (th_inflight s). snd c \<le> th_requestToken s) \<and>
     (\<forall>q. th_queuedCapture s = Some q \<longrightarrow> snd q \<le> th_requestToken s) \<and>
     (\<forall>x \<in> set (th_timers s). snd (snd x) \<le> th_requestToken s)"
  unfolding th_inv_def th_tokens_def by (cases "th_queuedCapture s") auto

lemma generatePreview_inv: "th_inv s \<Longrightarrow> th_inv (generatePreview t p d s)"
proof -
  assume a: "th_inv s"
  have c: "\<And>x h. x \<in> set (clearTimeout h (th_timers s)) \<Longrightarrow> snd (snd x) \<le> th_requestToken s"
    using a clearTimeout_subset unfolding th_inv_iff by blast
  show ?thesis
  proof (cases "generatePreview t p d s = s")
    case True
    then show ?thesis using a by simp
  next
    case False
    then have e: "generatePreview t p d s = s\<lparr> th_lastRequestedTime := t,
           th_requestToken := th_requestToken s + 1,
           th_timers := clearTimeout (th_debounceTimer s) (th_timers s) @ [(th_nextTimer s, (t, th_requestToken s + 1))],
           th_debounceTimer := Some (th_nextTimer s),
           th_nextTimer := th_nextTimer s + 1 \<rparr>"
      by (simp add: generatePreview_def Let_def split: if_splits)
    have "\<And>x. x \<in> set (clearTimeout (th_debounceTimer s) (th_timers s)) \<Longrightarrow> snd (snd x) \<le> Suc (th_requestToken s)"
      using c le_SucI by blast
    then show ?thesis unfolding e th_inv_iff using a[unfolded th_inv_iff]
      by (simp add: le_SucI)
  qed
qed

lemma cancelPending_tokens: "th_tokens (cancelPending s) \<subseteq> th_tokens s"
  using clearTimeout_subset[of "th_debounceTimer s" "th_timers s"]
  by (auto simp: cancelPending_def th_tokens_def)

lemma cancelPending_stale: "th_inv s \<Longrightarrow> \<forall>t \<in> th_tokens (cancelPending s). t < th_requestToken (cancelPending s)"
  using cancelPending_tokens[of s] by (auto simp: th_inv_def cancelPending_def less_Suc_eq_le)

lemma th_step_inv: "th_inv s \<Longrightarrow> th_inv (th_step s e)"
proof (cases e)
  case (GeneratePreview t p d)
  then show "th_inv s \<Longrightarrow> ?thesis" by (simp add: th_step_def generatePreview_inv)
next
  case (DebounceFire h)
  assume a: "th_inv s"
  show ?thesis
  proof (cases "map_of (th_timers s) h")
    case None
    then show ?thesis using a DebounceFire by (simp add: th_step_def)
  next
    case (Some tt)
    obtain time token where tt: "tt = (time, token)" by (cases tt)
    let ?s1 = "s\<lparr> th_timers := clearTimeout (Some h) (th_timers s) \<rparr>"
    have "(h, time, token) \<in> set (th_timers s)" using Some tt by (simp add: map_of_SomeD)
    then have tok: "token \<in> th_tokens s" by (force simp: th_tokens_def)
    have sub: "th_tokens ?s1 \<subseteq> th_tokens s"
      using clearTimeout_subset[of "Some h" "th_timers s"] by (auto simp: th_tokens_def)
    have "th_tokens (capture time token ?s1) \<subseteq> th_tokens s"
      using capture_tokens[of time token ?s1] tok sub by auto
    then have "th_inv (capture time token ?s1)"
      using a by (auto simp: th_inv_def capture_token)
    then show ?thesis using DebounceFire Some tt by (simp add: th_step_def)
  qed
next
  case (CaptureDone k r)
  assume a: "th_inv s"
  show ?thesis
  proof (cases "k < length (th_inflight s)")
    case False
    then show ?thesis using a CaptureDone by (simp add: th_step_def)
  next
    case True
    let ?s1 = "s\<lparr> th_inflight := take k (th_inflight s) @ drop (Suc k) (th_inflight s) \<rparr>"
    have "set (take k (th_inflight s) @ drop (Suc k) (th_inflight s)) \<subseteq> set (th_inflight s)"
      using set_take_subset set_drop_subset by fastforce
    then have sub: "th_tokens ?s1 \<subseteq> th_tokens s" by (auto simp: th_tokens_def)
    have "th_tokens (capture_resume (th_inflight s ! k) r ?s1) \<subseteq> th_tokens s"
      using capture_resume_tokens[of "th_inflight s ! k" r ?s1] sub by auto
    then have "th_inv (capture_resume (th_inflight s ! k) r ?s1)"
      using a by (auto simp: th_inv_def capture_resume_token)
    then show ?thesis using CaptureDone True by (simp add: th_step_def)
  qed
next
  case CancelPending
  assume a: "th_inv s"
  then show ?thesis using CancelPending cancelPending_stale[of s]
    by (auto simp: th_step_def th_inv_def intro: less_imp_le)
next
  case ThumbDestroy
  assume a: "th_inv s"
  have "th_tokens (thumbnails_destroy s) \<subseteq> th_tokens s"
    using clearTimeout_subset[of "th_debounceTimer s" "th_timers s"]
    by (auto simp: thumbnails_destroy_def th_tokens_def)
  then show ?thesis using a ThumbDestroy
    by (auto simp: th_step_def th_inv_def thumbnails_destroy_def)
qed

lemma th_run_inv: "th_inv s \<Longrightarrow> th_inv (th_run s es)"
  unfolding th_run_def by (induction es arbitrary: s) (auto simp: th_step_inv)

lemma th_reachable_inv: "th_inv (th_run (th_init el) es)"
  by (simp add: th_run_inv th_inv_init)

lemma apply_result_stale: "token \<noteq> th_requestToken s \<Longrightarrow> th_imgEl (apply_result token r s) = th_imgEl s"
  by (simp add: apply_result_def split: capture_result.splits option.splits)

lemma capture_img: "th_imgEl (capture time token s) = th_imgEl s"
  by (simp add: capture_def)

lemma capture_resume_img: "th_imgEl (capture_resume c r s) = th_imgEl (apply_result (snd c) r s)"
  by (simp add: capture_resume_def Let_def capture_img split: option.splits)

lemma capture_resume_stale:
  "snd c \<noteq> th_requestToken s \<Longrightarrow> th_imgEl (capture_resume c r s) = th_imgEl s"
  by (simp add: capture_resume_img apply_result_stale)


subsection \<open>Rounding\<close>

lemma binade_range: "-1022 \<le> binade n x \<and> binade n x \<le> int n - 1022"
  by (induction n) auto

lemma binade_lower: "binade n x \<noteq> -1022 \<Longrightarrow> 2 powi (binade n x) \<le> x"
  by (induction n) (auto split: if_splits)

lemma binade_upper: "binade n x < int n - 1022 \<Longrightarrow> x < 2 powi (binade n x + 1)"
proof (induction n)
  case 0
  then show ?case by simp
next
  case (Suc n)
  show ?case
  proof (cases "2 powi (int n - 1021) \<le> x")
    case True
    then show ?thesis using Suc.prems by simp
  next
    case False
    then have b: "binade (Suc n) x = binade n x" by simp
    show ?thesis
    proof (cases "binade n x < int n - 1022")
      case True
      then show ?thesis using Suc.IH b by simp
    next
      case F: False
      then have eq: "binade n x + 1 = int n - 1021" using binade_range[of n x] by linarith
      have "x < 2 powi (int n - 1021)" using False by simp
      then show ?thesis unfolding b eq .
    qed
  qed
qed

lemma rhe_bounds: "real_of_int (round_half_even q) \<le> q + 1 / 2" "q - 1 / 2 \<le> real_of_int (round_half_even q)"
  unfolding round_half_even_def Let_def by (auto; linarith)+

lemma rhe_below: "q < real_of_int n - 1 / 2 \<Longrightarrow> round_half_even q \<le> n - 1"
  using rhe_bounds(1)[of q] by linarith

lemma rhe_above: "real_of_int n - 1 / 2 \<le> q \<Longrightarrow> even n \<Longrightarrow> n \<le> round_half_even q"
proof -
  assume a: "real_of_int n - 1 / 2 \<le> q" and e: "even n"
  show ?thesis
  proof (cases "q = real_of_int n - 1 / 2")
    case True
    have f: "\<lfloor>q\<rfloor> = n - 1" unfolding True by linarith
    then have "q - of_int \<lfloor>q\<rfloor> = 1 / 2" using True by simp
    moreover have "odd (n - 1)" using e by simp
    ultimately show ?thesis using f by (simp add: round_half_even_def Let_def)
  next
    case False
    then have "real_of_int n - 1 / 2 < q" using a by simp
    then show ?thesis using rhe_bounds(2)[of q] by linarith
  qed
qed


lemma pow2_shift:
  "(2::real) powi (e + 1) = 2 powi (e - 52) * 2 ^ 53"
  "(2::real) powi e = 2 powi (e - 52) * 2 ^ 52"
proof -
  have "(2::real) powi (e + 1) = 2 powi ((e - 52) + 53)"
    by (rule arg_cong[where f = "\<lambda>k. 2 powi k"]) simp
  also have "\<dots> = 2 powi (e - 52) * 2 powi 53" by (rule power_int_add) simp
  also have "(2::real) powi 53 = 2 ^ 53" by simp
  finally show "(2::real) powi (e + 1) = 2 powi (e - 52) * 2 ^ 53" .
  have "(2::real) powi e = 2 powi ((e - 52) + 52)"
    by (rule arg_cong[where f = "\<lambda>k. 2 powi k"]) simp
  also have "\<dots> = 2 powi (e - 52) * 2 powi 52" by (rule power_int_add) simp
  also have "(2::real) powi 52 = 2 ^ 52" by simp
  finally show "(2::real) powi e = 2 powi (e - 52) * 2 ^ 52" .
qed

definition magnitude :: "real \<Rightarrow> real" where
  "magnitude a = real_of_int (round_half_even (a / 2 powi (binade 2045 a - 52))) * 2 powi (binade 2045 a - 52)"

lemma magnitude_small:
  assumes "0 \<le> a" "a < 1 / 4 - 1 / 2 ^ 56"
  shows "magnitude a < 1 / 4"
proof -
  let ?e = "binade 2045 a"
  let ?u = "(2::real) powi (?e - 52)"
  let ?m = "round_half_even (a / ?u)"
  have up: "0 < ?u" by (simp add: zero_less_power_int)
  have e3: "?e \<le> -3"
  proof (rule ccontr)
    assume "\<not> ?e \<le> -3"
    then have g: "-2 \<le> ?e" by simp
    then have "(2::real) powi (-2) \<le> 2 powi ?e" by (intro power_int_increasing) simp_all
    moreover have "2 powi ?e \<le> a" using g by (intro binade_lower) simp
    ultimately show False using assms(2) by simp
  qed
  then have lt: "a < 2 powi (?e + 1)" by (intro binade_upper) simp
  show ?thesis
  proof (cases "?e = -3")
    case True
    have u: "?u = 1 / 2 ^ 55" unfolding True by simp
    have "a / ?u < real_of_int (2 ^ 53) - 1 / 2" unfolding u using assms(2) by simp
    then have "?m \<le> 2 ^ 53 - 1" by (rule rhe_below)
    then have "real_of_int ?m \<le> real_of_int (2 ^ 53 - 1)" by (simp only: of_int_le_iff)
    then have "real_of_int ?m \<le> 2 ^ 53 - 1" by simp
    then have "real_of_int ?m * ?u \<le> (2 ^ 53 - 1) * ?u" using up by (intro mult_right_mono) simp_all
    also have "\<dots> < 1 / 4" unfolding u by simp
    finally show ?thesis by (simp add: magnitude_def)
  next
    case False
    then have e4: "?e + 1 \<le> -3" using e3 by simp
    have "a < ?u * 2 ^ 53" using lt unfolding pow2_shift(1)[of ?e] .
    then have q: "a / ?u < 2 ^ 53" using up by (simp add: field_simps)
    have c: "real_of_int (2 ^ 53 + 1) = 2 ^ 53 + 1" by simp
    have "a / ?u < real_of_int (2 ^ 53 + 1) - 1 / 2" unfolding c using q by linarith
    then have "?m \<le> (2 ^ 53 + 1) - 1" by (rule rhe_below)
    then have "real_of_int ?m \<le> real_of_int ((2 ^ 53 + 1) - 1)" by (simp only: of_int_le_iff)
    then have "real_of_int ?m \<le> 2 ^ 53" by simp
    then have "real_of_int ?m * ?u \<le> 2 ^ 53 * ?u" using up by (intro mult_right_mono) simp_all
    also have "\<dots> = 2 powi (?e + 1)" unfolding pow2_shift(1)[of ?e] by simp
    also have "\<dots> \<le> 2 powi (-3)" using e4 by (intro power_int_increasing) simp_all
    also have "\<dots> < 1 / 4" by simp
    finally show ?thesis by (simp add: magnitude_def)
  qed
qed

lemma magnitude_large:
  assumes "1 / 4 - 1 / 2 ^ 56 \<le> a"
  shows "1 / 4 \<le> magnitude a"
proof -
  let ?e = "binade 2045 a"
  let ?u = "(2::real) powi (?e - 52)"
  let ?m = "round_half_even (a / ?u)"
  have up: "0 < ?u" by (simp add: zero_less_power_int)
  have e3: "-3 \<le> ?e"
  proof (rule ccontr)
    assume "\<not> -3 \<le> ?e"
    then have g: "?e + 1 \<le> -3" by simp
    then have "a < 2 powi (?e + 1)" by (intro binade_upper) simp
    also have "\<dots> \<le> 2 powi (-3)" using g by (intro power_int_increasing) simp_all
    finally show False using assms by simp
  qed
  show ?thesis
  proof (cases "?e = -3")
    case True
    have u: "?u = 1 / 2 ^ 55" unfolding True by simp
    have "real_of_int (2 ^ 53) - 1 / 2 \<le> a / ?u" unfolding u using assms by simp
    then have "2 ^ 53 \<le> ?m" by (rule rhe_above) simp
    then have "real_of_int (2 ^ 53) \<le> real_of_int ?m" by (simp only: of_int_le_iff)
    then have "2 ^ 53 \<le> real_of_int ?m" by simp
    then have "2 ^ 53 * ?u \<le> real_of_int ?m * ?u" using up by (intro mult_right_mono) simp_all
    then show ?thesis unfolding magnitude_def u by simp
  next
    case False
    then have e2: "-2 \<le> ?e" using e3 by simp
    then have le: "2 powi ?e \<le> a" by (intro binade_lower) simp
    have p: "2 powi ?e = ?u * 2 ^ 52" by (rule pow2_shift(2))
    have "?u * 2 ^ 52 \<le> a" using le unfolding p .
    then have q: "2 ^ 52 \<le> a / ?u" using up by (simp add: field_simps)
    have c: "real_of_int (2 ^ 52) = 2 ^ 52" by simp
    have "real_of_int (2 ^ 52) - 1 / 2 \<le> a / ?u" unfolding c using q by linarith
    then have "2 ^ 52 \<le> ?m" by (rule rhe_above) simp
    then have "real_of_int (2 ^ 52) \<le> real_of_int ?m" by (simp only: of_int_le_iff)
    then have "2 ^ 52 \<le> real_of_int ?m" by simp
    then have "2 ^ 52 * ?u \<le> real_of_int ?m * ?u" using up by (intro mult_right_mono) simp_all
    moreover have "2 ^ 52 * ?u = 2 powi ?e" unfolding p by simp
    moreover have "(2::real) powi (-2) \<le> 2 powi ?e" using e2 by (intro power_int_increasing) simp_all
    moreover have "(2::real) powi (-2) = 1 / 4" by simp
    ultimately have "1 / 4 \<le> real_of_int ?m * ?u" by linarith
    then show ?thesis unfolding magnitude_def .
  qed
qed

lemma abs_round_double:
  "js_abs (round_double x) = (if 2 powi 1024 \<le> magnitude \<bar>x\<bar> then PosInf else Finite (magnitude \<bar>x\<bar>))"
proof -
  define y where "y = magnitude \<bar>x\<bar>"
  have "0 \<le> \<bar>x\<bar> / 2 powi (binade 2045 \<bar>x\<bar> - 52)" by (simp add: zero_le_power_int)
  then have "0 \<le> round_half_even (\<bar>x\<bar> / 2 powi (binade 2045 \<bar>x\<bar> - 52))"
    using rhe_bounds(2)[of "\<bar>x\<bar> / 2 powi (binade 2045 \<bar>x\<bar> - 52)"] by linarith
  then have y0: "0 \<le> y" by (simp add: magnitude_def y_def)
  have rd: "round_double x = (if 2 powi 1024 \<le> y then (if 0 < x then PosInf else NegInf)
                              else Finite (if x < 0 then - y else y))"
    by (simp only: round_double_def magnitude_def Let_def y_def)
  show ?thesis unfolding rd y_def[symmetric] using y0 by simp
qed

lemma round_close_iff:
  "js_lt (js_abs (round_double x)) (Finite (1 / 4)) \<longleftrightarrow> \<bar>x\<bar> < 1 / 4 - 1 / 2 ^ 56"
proof (cases "\<bar>x\<bar> < 1 / 4 - 1 / 2 ^ 56")
  case True
  then have m: "magnitude \<bar>x\<bar> < 1 / 4" by (intro magnitude_small) simp_all
  have "(1 / 4 :: real) < 2 powi 1024" by simp
  then have "\<not> 2 powi 1024 \<le> magnitude \<bar>x\<bar>" using m by linarith
  then show ?thesis using True m by (simp add: abs_round_double)
next
  case False
  then have "1 / 4 \<le> magnitude \<bar>x\<bar>" by (intro magnitude_large) simp
  then show ?thesis using False by (simp add: abs_round_double)
qed

lemma close_iff:
  "js_lt (js_abs (js_sub (Finite t) (Finite l))) (Finite (1 / 4)) \<longleftrightarrow> \<bar>t - l\<bar> < 1 / 4 - 1 / 2 ^ 56"
  by (simp add: round_close_iff)

lemma binade_eq:
  assumes "2 powi e \<le> x" "x < 2 powi (e + 1)" "-1022 \<le> e" "e \<le> 1023"
  shows "binade 2045 x = e"
proof (rule ccontr)
  assume n: "binade 2045 x \<noteq> e"
  show False
  proof (cases "binade 2045 x < e")
    case True
    then have "x < 2 powi (binade 2045 x + 1)" using assms(4) by (intro binade_upper) simp
    also have "\<dots> \<le> 2 powi e" using True by (intro power_int_increasing) simp_all
    finally show False using assms(1) by simp
  next
    case False
    then have g: "e + 1 \<le> binade 2045 x" using n by simp
    then have "2 powi (binade 2045 x) \<le> x" using assms(3) by (intro binade_lower) simp
    moreover have "(2::real) powi (e + 1) \<le> 2 powi (binade 2045 x)"
      using g by (intro power_int_increasing) simp_all
    ultimately show False using assms(2) by simp
  qed
qed

subsection \<open>Dropped requests\<close>

lemma generatePreview_close:
  "js_lt (js_abs (js_sub time (th_lastRequestedTime s))) (Finite (1 / 4))
   \<Longrightarrow> generatePreview time percent duration s = s"
  by (simp add: generatePreview_def)

lemma generatePreview_accepts:
  assumes "th_imgEl s \<noteq> None" "truthy_num d"
    and "\<not> js_lt (js_abs (js_sub t (th_lastRequestedTime s))) (Finite (1 / 4))"
  shows "th_requestToken (generatePreview t p d s) = th_requestToken s + 1"
    and "th_lastRequestedTime (generatePreview t p d s) = t"
  using assms by (auto simp: generatePreview_def Let_def)

lemma generatePreview_cases:
  "generatePreview t p d s = s \<or>
   (th_lastRequestedTime (generatePreview t p d s) = t \<and>
    th_requestToken (generatePreview t p d s) = th_requestToken s + 1)"
  by (simp add: generatePreview_def Let_def)

lemma generatePreview_calls: "th_calls (generatePreview t p d s) = th_calls s"
  by (simp add: generatePreview_def Let_def)

lemma generatePreview_inflight: "th_inflight (generatePreview t p d s) = th_inflight s"
  by (simp add: generatePreview_def Let_def)

text \<open>
  Claim C8, as amended.  A call \<^verbatim>\<open>generatePreview(time)\<close> for which the code's test
  \<^verbatim>\<open>Math.abs(time - this._lastRequestedTime) < 0.25\<close> succeeds leaves the whole
  instance unchanged: the last requested time, the token counter, the armed debounce
  timer and the captures issued.  The difference in that test is the double precision
  one, rounded to nearest: for finite times the test succeeds exactly when the exact
  difference is below \<open>0.25 - 2 powi (-56)\<close> in absolute value.  Of two successive calls
  whose times pass the test against each other at least one is such a no-op, so
  together they mint at most one token (one debounce timer, hence at most one
  capture), and neither call issues a capture by itself.
\<close>

theorem generatePreview_drops_close_requests:
  "(js_lt (js_abs (js_sub time (th_lastRequestedTime s))) (Finite (1 / 4)) \<longrightarrow>
      generatePreview time percent duration s = s) \<and>
   (js_lt (js_abs (js_sub t2 t1)) (Finite (1 / 4)) \<longrightarrow>
      (generatePreview t1 p1 d1 s = s \<or>
       generatePreview t2 p2 d2 (generatePreview t1 p1 d1 s) = generatePreview t1 p1 d1 s) \<and>
      th_requestToken (generatePreview t2 p2 d2 (generatePreview t1 p1 d1 s)) \<le> th_requestToken s + 1 \<and>
      th_calls (generatePreview t2 p2 d2 (generatePreview t1 p1 d1 s)) = th_calls s) \<and>
   (js_lt (js_abs (js_sub (Finite x) (Finite y))) (Finite (1 / 4)) \<longleftrightarrow> \<bar>x - y\<bar> < 1 / 4 - 1 / 2 ^ 56)"
proof (intro conjI impI)
  assume "js_lt (js_abs (js_sub time (th_lastRequestedTime s))) (Finite (1 / 4))"
  then show "generatePreview time percent duration s = s" by (rule generatePreview_close)
next
  assume d: "js_lt (js_abs (js_sub t2 t1)) (Finite (1 / 4))"
  let ?s1 = "generatePreview t1 p1 d1 s"
  show one: "?s1 = s \<or> generatePreview t2 p2 d2 ?s1 = ?s1"
  proof (cases "?s1 = s")
    case False
    then have "th_lastRequestedTime ?s1 = t1" using generatePreview_cases[of t1 p1 d1 s] by simp
    then show ?thesis using d generatePreview_close[of t2 ?s1 p2 d2] by simp
  qed simp
  show "th_requestToken (generatePreview t2 p2 d2 ?s1) \<le> th_requestToken s + 1"
    using one generatePreview_cases[of t1 p1 d1 s] generatePreview_cases[of t2 p2 d2 s]
    by (metis le_add1 order_refl)
  show "th_calls (generatePreview t2 p2 d2 ?s1) = th_calls s"
    by (simp add: generatePreview_calls)
next
  show "js_lt (js_abs (js_sub (Finite x) (Finite y))) (Finite (1 / 4)) \<longleftrightarrow> \<bar>x - y\<bar> < 1 / 4 - 1 / 2 ^ 56"
    by (rule close_iff)
qed

theorem generatePreview_drops_close_requests_witness:
  "js_lt (js_abs (js_sub (Finite 10.125)
      (th_lastRequestedTime (generatePreview (Finite 10) (Finite 50) (Some (Finite 20)) (th_init (Some ''a''))))))
      (Finite (1 / 4)) \<and>
   generatePreview (Finite 10.125) (Finite 50.625) (Some (Finite 20))
       (generatePreview (Finite 10) (Finite 50) (Some (Finite 20)) (th_init (Some ''a'')))
     = generatePreview (Finite 10) (Finite 50) (Some (Finite 20)) (th_init (Some ''a'')) \<and>
   th_requestToken (generatePreview (Finite 10) (Finite 50) (Some (Finite 20)) (th_init (Some ''a''))) = 1 \<and>
   th_requestToken (generatePreview (Finite 10.125) (Finite 50.625) (Some (Finite 20))
       (generatePreview (Finite 10) (Finite 50) (Some (Finite 20)) (th_init (Some ''a'')))) = 1"
proof -
  let ?s1 = "generatePreview (Finite 10) (Finite 50) (Some (Finite 20)) (th_init (Some ''a''))"
  have far: "\<not> js_lt (js_abs (js_sub (Finite 10) (Finite (-1)))) (Finite (1 / 4))"
    by (simp only: close_iff) simp
  have l: "th_lastRequestedTime ?s1 = Finite 10" and t: "th_requestToken ?s1 = 1"
    using far by (simp_all add: generatePreview_def th_init_def truthy_num_def Let_def)
  have h: "js_lt (js_abs (js_sub (Finite 10.125) (th_lastRequestedTime ?s1))) (Finite (1 / 4))"
    unfolding l by (simp only: close_iff) simp
  from generatePreview_drops_close_requests
    [of "Finite 10.125" ?s1 "Finite 50.625" "Some (Finite 20)"] h
  have "generatePreview (Finite 10.125) (Finite 50.625) (Some (Finite 20)) ?s1 = ?s1" by blast
  then show ?thesis using h t by simp
qed

text \<open>
  The claim as first stated takes the exact difference.  The doubles nearest to 0.05
  and to 0.3 differ by \<open>0.25 - 2 powi (-56)\<close>, less than 0.25, and their computed
  difference is 0.25: the second request is accepted and mints a token.
\<close>

theorem rounded_difference_counterexample:
  "round_double (1 / 20) = Finite (3602879701896397 / 2 ^ 56) \<and>
   round_double (3 / 10) = Finite (5404319552844595 / 2 ^ 54) \<and>
   \<bar>5404319552844595 / 2 ^ 54 - 3602879701896397 / 2 ^ 56\<bar> < (1 / 4 :: real) \<and>
   th_lastRequestedTime (generatePreview (Finite (3602879701896397 / 2 ^ 56)) (Finite 5) (Some (Finite 1))
      (th_init (Some ''a''))) = Finite (3602879701896397 / 2 ^ 56) \<and>
   th_requestToken (generatePreview (Finite (3602879701896397 / 2 ^ 56)) (Finite 5) (Some (Finite 1))
      (th_init (Some ''a''))) = 1 \<and>
   th_requestToken (generatePreview (Finite (5404319552844595 / 2 ^ 54)) (Finite 30) (Some (Finite 1))
      (generatePreview (Finite (3602879701896397 / 2 ^ 56)) (Finite 5) (Some (Finite 1))
         (th_init (Some ''a'')))) = 2 \<and>
   th_lastRequestedTime (generatePreview (Finite (5404319552844595 / 2 ^ 54)) (Finite 30) (Some (Finite 1))
      (generatePreview (Finite (3602879701896397 / 2 ^ 56)) (Finite 5) (Some (Finite 1))
         (th_init (Some ''a'')))) = Finite (5404319552844595 / 2 ^ 54)"
proof -
  let ?a = "3602879701896397 / 2 ^ 56 :: real"
  let ?b = "5404319552844595 / 2 ^ 54 :: real"
  let ?s1 = "generatePreview (Finite ?a) (Finite 5) (Some (Finite 1)) (th_init (Some ''a''))"
  have ea: "binade 2045 (1 / 20) = -5" by (rule binade_eq) simp_all
  have eb: "binade 2045 (3 / 10) = -2" by (rule binade_eq) simp_all
  have ra: "round_double (1 / 20) = Finite ?a"
    by (simp add: round_double_def ea round_half_even_def Let_def)
  have rb: "round_double (3 / 10) = Finite ?b"
    by (simp add: round_double_def eb round_half_even_def Let_def)
  have d: "\<bar>?b - ?a\<bar> < (1 / 4 :: real)" by simp
  have far: "\<not> js_lt (js_abs (js_sub (Finite ?a) (Finite (-1)))) (Finite (1 / 4))"
    by (simp only: close_iff) simp
  have l: "th_lastRequestedTime ?s1 = Finite ?a" and t: "th_requestToken ?s1 = 1"
    using far by (simp_all add: generatePreview_def th_init_def truthy_num_def Let_def)
  have i: "th_imgEl ?s1 = Some ''a''"
    using far by (simp add: generatePreview_def th_init_def truthy_num_def Let_def)
  have acc: "\<not> js_lt (js_abs (js_sub (Finite ?b) (th_lastRequestedTime ?s1))) (Finite (1 / 4))"
    unfolding l by (simp only: close_iff) simp
  have t2: "th_requestToken (generatePreview (Finite ?b) (Finite 30) (Some (Finite 1)) ?s1) = 2"
    and l2: "th_lastRequestedTime (generatePreview (Finite ?b) (Finite 30) (Some (Finite 1)) ?s1) = Finite ?b"
    using generatePreview_accepts[OF _ _ acc, of "Some (Finite 1)" "Finite 30"] i t
    by (simp_all add: truthy_num_def)
  show ?thesis using ra rb d l t t2 l2 by simp
qed


lemma CaptureDone_stale:
  assumes "k < length (th_inflight s)" "snd (th_inflight s ! k) \<noteq> th_requestToken s"
  shows "th_imgEl (th_step s (CaptureDone k r)) = th_imgEl s"
proof -
  let ?s1 = "s\<lparr> th_inflight := take k (th_inflight s) @ drop (Suc k) (th_inflight s) \<rparr>"
  have "th_imgEl (capture_resume (th_inflight s ! k) r ?s1) = th_imgEl ?s1"
    using assms(2) by (intro capture_resume_stale) simp
  then show ?thesis using assms(1) by (simp add: th_step_def)
qed

lemma CaptureDone_fresh:
  assumes "k < length (th_inflight s)" "snd (th_inflight s ! k) = th_requestToken s"
    "dataUrl p \<noteq> []" "th_imgEl s \<noteq> None"
  shows "th_imgEl (th_step s (CaptureDone k (Resolved (Some p)))) = Some (dataUrl p)"
  using assms by (simp add: th_step_def capture_resume_img apply_result_def)

lemma inflight_stale_after:
  assumes inv: "th_inv s" and c: "c \<in> set (th_inflight s)"
    and lt: "th_requestToken s < th_requestToken s1"
  shows "snd c < th_requestToken (th_run s1 es)"
proof -
  have "snd c \<le> th_requestToken s" using inv c unfolding th_inv_iff by blast
  then show ?thesis using lt th_run_token_mono[of s1 es] by linarith
qed

lemma cancelPending_fields:
  "th_requestToken (cancelPending s) = th_requestToken s + 1 \<and>
   th_queuedCapture (cancelPending s) = None \<and>
   th_inflight (cancelPending s) = th_inflight s \<and>
   th_pending (cancelPending s) = th_pending s \<and>
   th_calls (cancelPending s) = th_calls s \<and>
   th_imgEl (cancelPending s) = th_imgEl s"
  by (simp add: cancelPending_def)

lemma clearTimeout_disarms: "map_of (clearTimeout (Some h) ts) h = None"
  by (induction ts) (auto simp: clearTimeout_def)

lemma cancelPending_disarms:
  "th_debounceTimer s = Some h \<Longrightarrow> map_of (th_timers (cancelPending s)) h = None"
  by (simp add: cancelPending_def clearTimeout_disarms)

text \<open>
  Claim C5.  Let a capture be in flight in a reachable state, and let
  \<^verbatim>\<open>cancelPending()\<close> be called, or a \<^verbatim>\<open>generatePreview\<close> request that mints
  a newer token.  Whatever events follow, when the completion of that capture is observed
  the image is left as it is: the result is not delivered.  In general a completion
  whose token differs from the current request token never changes the image.
  \<^verbatim>\<open>cancelPending()\<close> makes every outstanding token smaller than the current one,
  disarms the debounce timer and drops the queued capture, and it leaves the in-flight
  captures, the in-flight flag and the captures issued untouched.
\<close>

theorem stale_capture_results_discarded:
  assumes reach: "s = th_run (th_init el) es0"
    and c: "c \<in> set (th_inflight s)"
    and newer: "s1 = cancelPending s \<or>
                (s1 = generatePreview t p d s \<and> th_requestToken s1 \<noteq> th_requestToken s)"
    and later: "s2 = th_run s1 es"
    and k: "k < length (th_inflight s2)" "th_inflight s2 ! k = c"
  shows "th_imgEl (th_step s2 (CaptureDone k r)) = th_imgEl s2 \<and>
         (\<forall>x j. j < length (th_inflight x) \<and> snd (th_inflight x ! j) \<noteq> th_requestToken x
              \<longrightarrow> th_imgEl (th_step x (CaptureDone j r)) = th_imgEl x) \<and>
         (\<forall>tok \<in> th_tokens (cancelPending s). tok < th_requestToken (cancelPending s)) \<and>
         (\<forall>h. th_debounceTimer s = Some h \<longrightarrow> map_of (th_timers (cancelPending s)) h = None) \<and>
         th_queuedCapture (cancelPending s) = None \<and>
         th_inflight (cancelPending s) = th_inflight s \<and>
         th_pending (cancelPending s) = th_pending s \<and>
         th_calls (cancelPending s) = th_calls s \<and>
         th_imgEl (cancelPending s) = th_imgEl s"
proof -
  have inv: "th_inv s" using reach th_reachable_inv by simp
  have "th_requestToken s < th_requestToken s1"
  proof -
    from newer show ?thesis
    proof
      assume "s1 = cancelPending s"
      then show ?thesis by (simp add: cancelPending_def)
    next
      assume a: "s1 = generatePreview t p d s \<and> th_requestToken s1 \<noteq> th_requestToken s"
      then show ?thesis using generatePreview_cases[of t p d s] by auto
    qed
  qed
  then have "snd c < th_requestToken s2"
    using inflight_stale_after[OF inv c] later by simp
  then have 1: "th_imgEl (th_step s2 (CaptureDone k r)) = th_imgEl s2"
    using k CaptureDone_stale[of k s2 r] by simp
  have 2: "\<forall>x j. j < length (th_inflight x) \<and> snd (th_inflight x ! j) \<noteq> th_requestToken x
              \<longrightarrow> th_imgEl (th_step x (CaptureDone j r)) = th_imgEl x"
    using CaptureDone_stale by blast
  have 3: "\<forall>tok \<in> th_tokens (cancelPending s). tok < th_requestToken (cancelPending s)"
    using cancelPending_stale[OF inv] .
  show ?thesis using 1 2 3 cancelPending_fields[of s] cancelPending_disarms[of s] by simp
qed


lemmas th_defs = th_run_def th_step_def th_init_def generatePreview_def capture_def capture_resume_def
  apply_result_def cancelPending_def clearTimeout_def truthy_num_def Let_def round_close_iff

theorem stale_capture_results_discarded_witness:
  "(Finite 10, 1) \<in> set (th_inflight (th_run (th_init (Some ''old'')) [GeneratePreview (Finite 10) (Finite 50) (Some (Finite 20)), DebounceFire 0])) \<and>
   th_imgEl (th_step (cancelPending (th_run (th_init (Some ''old'')) [GeneratePreview (Finite 10) (Finite 50) (Some (Finite 20)), DebounceFire 0]))
      (CaptureDone 0 (Resolved (Some \<lparr> dataUrl = ''new'', p_time = 10 \<rparr>)))) = Some ''old'' \<and>
   th_imgEl (th_step (th_run (th_init (Some ''old'')) [GeneratePreview (Finite 10) (Finite 50) (Some (Finite 20)), DebounceFire 0])
      (CaptureDone 0 (Resolved (Some \<lparr> dataUrl = ''new'', p_time = 10 \<rparr>)))) = Some ''new''"
proof -
  let ?s = "th_run (th_init (Some ''old'')) [GeneratePreview (Finite 10) (Finite 50) (Some (Finite 20)), DebounceFire 0]"
  let ?r = "Resolved (Some \<lparr> dataUrl = ''new'', p_time = 10 \<rparr>)"
  have infl: "th_inflight ?s = [(Finite 10, 1)]" by (simp add: th_defs)
  have img: "th_imgEl (cancelPending ?s) = Some ''old''" by (simp add: th_defs)
  have c: "(Finite 10, 1) \<in> set (th_inflight ?s)" using infl by simp
  have k: "0 < length (th_inflight (th_run (cancelPending ?s) []))"
    "th_inflight (th_run (cancelPending ?s) []) ! 0 = (Finite 10, 1)"
    using infl by (simp_all add: th_run_def cancelPending_def)
  have "th_imgEl (th_step (th_run (cancelPending ?s) []) (CaptureDone 0 ?r)) = th_imgEl (th_run (cancelPending ?s) [])"
    using stale_capture_results_discarded[where ?s1.0 = "cancelPending ?s" and r = ?r and es = "[]"
        and t = NaN and p = NaN and d = None, OF refl c _ refl k] by blast
  then have 1: "th_imgEl (th_step (cancelPending ?s) (CaptureDone 0 ?r)) = Some ''old''"
    using img by (simp add: th_run_def)
  have 2: "th_imgEl (th_step ?s (CaptureDone 0 ?r)) = Some ''new''" by (simp add: th_defs)
  show ?thesis using c 1 2 by blast
qed

section \<open>Preview cache\<close>

lemma jsmap_set_fresh: "k \<notin> fst ` set m \<Longrightarrow> jsmap_set k v m = m @ [(k, v)]"
  by (induction m) auto

lemma jsmap_set_length:
  "length (jsmap_set k v m) = (if k \<in> fst ` set m then length m else Suc (length m))"
  by (induction m) auto

lemma jsmap_set_keys: "fst ` set (jsmap_set k v m) = insert k (fst ` set m)"
  by (induction m) auto

lemma jsmap_set_distinct: "distinct (map fst m) \<Longrightarrow> distinct (map fst (jsmap_set k v m))"
proof (induction m)
  case Nil
  then show ?case by simp
next
  case (Cons e m)
  then show ?case using jsmap_set_keys[of k v m] by (auto simp: image_iff)
qed

lemma jsmap_set_get: "jsmap_get k' (jsmap_set k v m) = (if k' = k then Some v else jsmap_get k' m)"
  by (induction m) (auto simp: jsmap_get_def)

lemma jsmap_delete_head:
  "distinct (map fst (e # m)) \<Longrightarrow> jsmap_delete (fst e) (e # m) = m"
proof -
  assume d: "distinct (map fst (e # m))"
  then have "\<forall>x \<in> set m. fst x \<noteq> fst e" by (auto simp: image_iff)
  then have "filter (\<lambda>x. fst x \<noteq> fst e) m = m" by (simp add: filter_id_conv)
  then show ?thesis by (simp add: jsmap_delete_def)
qed

lemma jsmap_delete_length: "length (jsmap_delete k m) \<le> length m"
  by (simp add: jsmap_delete_def)

lemma jsmap_delete_first_length:
  "m \<noteq> [] \<Longrightarrow> length (jsmap_delete (fst (hd m)) m) < length m"
  by (cases m) (auto simp: jsmap_delete_def intro: le_imp_less_Suc)

lemma cacheSet_bound: "length m \<le> 180 \<Longrightarrow> length (cacheSet k v m) \<le> 180"
proof -
  assume a: "length m \<le> 180"
  let ?c = "jsmap_set k v m"
  have l: "length ?c \<le> 181" using a by (simp add: jsmap_set_length)
  show ?thesis
  proof (cases "length ?c > 180")
    case False
    then show ?thesis by (simp add: cacheSet_def Let_def)
  next
    case True
    then have ne: "?c \<noteq> []" by auto
    then obtain e r where c: "?c = e # r" by (cases ?c) auto
    have "length (jsmap_delete (fst (hd ?c)) ?c) < length ?c"
      using ne by (rule jsmap_delete_first_length)
    then have "length (jsmap_delete (fst e) ?c) \<le> 180" using l c by simp
    then show ?thesis using True c by (simp add: cacheSet_def Let_def jsmap_first_key_def)
  qed
qed

lemma cacheSet_present:
  "length m \<le> 180 \<Longrightarrow> k \<in> fst ` set m \<Longrightarrow> cacheSet k v m = jsmap_set k v m"
  by (simp add: cacheSet_def Let_def jsmap_set_length)

lemma cacheSet_room:
  "length m < 180 \<Longrightarrow> k \<notin> fst ` set m \<Longrightarrow> cacheSet k v m = m @ [(k, v)]"
  by (simp add: cacheSet_def Let_def jsmap_set_fresh)

lemma cacheSet_evicts_oldest:
  assumes d: "distinct (map fst m)" and l: "length m = 180" and k: "k \<notin> fst ` set m"
  shows "cacheSet k v m = tl m @ [(k, v)]"
proof -
  obtain e r where m: "m = e # r" using l by (cases m) auto
  have c: "jsmap_set k v m = e # (r @ [(k, v)])" using jsmap_set_fresh[OF k, of v] m by simp
  have "distinct (map fst (e # (r @ [(k, v)])))" using d k m by (auto simp: image_iff)
  then have "jsmap_delete (fst e) (e # (r @ [(k, v)])) = r @ [(k, v)]"
    by (rule jsmap_delete_head)
  then show ?thesis using c l m by (simp add: cacheSet_def Let_def jsmap_first_key_def)
qed

lemma cacheSet_distinct: "distinct (map fst m) \<Longrightarrow> distinct (map fst (cacheSet k v m))"
proof -
  assume "distinct (map fst m)"
  then have d: "distinct (map fst (jsmap_set k v m))" by (rule jsmap_set_distinct)
  have "distinct (map fst (jsmap_delete x (jsmap_set k v m)))" for x
    using d by (simp add: jsmap_delete_def distinct_map_filter)
  then show ?thesis using d
    by (simp add: cacheSet_def Let_def split: option.splits)
qed


lemma cacheSet_fifo_run:
  "distinct (map fst kvs) \<Longrightarrow>
   foldl (\<lambda>c kv. cacheSet (fst kv) (snd kv) c) [] kvs = drop (length kvs - 180) kvs"
proof (induction kvs rule: rev_induct)
  case Nil
  then show ?case by simp
next
  case (snoc kv kvs)
  let ?c = "drop (length kvs - 180) kvs"
  have d: "distinct (map fst kvs)" using snoc.prems by simp
  have ih: "foldl (\<lambda>c kv. cacheSet (fst kv) (snd kv) c) [] kvs = ?c" using snoc.IH d by simp
  have dc: "distinct (map fst ?c)" using d by (simp add: distinct_drop drop_map[symmetric])
  have fresh: "fst kv \<notin> fst ` set ?c"
  proof -
    have "fst kv \<notin> fst ` set kvs" using snoc.prems by (auto simp: image_iff)
    moreover have "set ?c \<subseteq> set kvs" by (rule set_drop_subset)
    ultimately show ?thesis by blast
  qed
  have "cacheSet (fst kv) (snd kv) ?c = drop (length (kvs @ [kv]) - 180) (kvs @ [kv])"
  proof (cases "length kvs < 180")
    case True
    then show ?thesis using cacheSet_room[of ?c "fst kv" "snd kv"] fresh by simp
  next
    case False
    then have l: "length ?c = 180" by simp
    have "cacheSet (fst kv) (snd kv) ?c = tl ?c @ [kv]"
      using cacheSet_evicts_oldest[OF dc l fresh, of "snd kv"] by simp
    moreover have "Suc (length kvs - 180) = Suc (length kvs) - 180" using False by arith
    then have "tl ?c = drop (Suc (length kvs) - 180) kvs"
      by (metis drop_Suc tl_drop)
    ultimately show ?thesis using False by simp
  qed
  then show ?case using ih by simp
qed

lemma capture_hit:
  assumes "jsmap_get (mediaPath, rounded_time time) (br_previewCache st) = Some cached"
    and "mediaPath \<noteq> []"
  shows "capture_thumbnail_handler True (Some mediaPath) time st = (Inr (Inr (Some cached)), st)"
  using assms by (simp add: capture_thumbnail_handler_def withReady_def capture_action_def Let_def)

lemma task_hit:
  assumes "jsmap_get cacheKey (br_previewCache st) = Some cached"
  shows "preview_task env cacheKey st = (Inr cached, st)"
  using assms by (simp add: preview_task_def)


lemma cacheSet_run_bound:
  "length (foldl (\<lambda>c kv. cacheSet (fst kv) (snd kv) c) [] kvs) \<le> 180"
  by (induction kvs rule: rev_induct) (simp_all add: cacheSet_bound)

lemma not_ready_is_transient: "transient_unavailable (Error ''mpv not ready'')"
proof -
  have "take (length ''not ready'') (drop 4 ''mpv not ready'') = ''not ready''" by simp
  then have "js_includes ''mpv not ready'' ''not ready''"
    unfolding js_includes_def list_ex_iff by (intro bexI[of _ 4]) simp_all
  then show ?thesis by (simp add: transient_unavailable_def ascii_lower_def Let_def)
qed

lemma withReady_not_ready: "withReady False action fallback st = (Inr fallback, st)"
  by (simp add: withReady_def not_ready_is_transient)

lemma preview_command_cache [simp]:
  "br_previewCache (snd (preview_command env c st)) = br_previewCache st"
  by (simp add: preview_command_def)

lemma ensurePreviewProcess_cache [simp]:
  "br_previewCache (snd (ensurePreviewProcess env st)) = br_previewCache st"
  by (simp add: ensurePreviewProcess_def Let_def)

lemma load_preview_media_cache [simp]:
  "br_previewCache (snd (load_preview_media env p st)) = br_previewCache st"
  by (simp add: load_preview_media_def preview_command_def split: option.splits)

lemma capture_file_cache [simp]:
  "br_previewCache (snd (capture_file env p st)) = br_previewCache st"
  by (simp add: capture_file_def preview_command_def split: option.splits)

lemma preview_task_cache:
  "br_previewCache (snd (preview_task env k st)) = br_previewCache st \<or>
   (\<exists>pl. br_previewCache (snd (preview_task env k st)) = cacheSet k pl (br_previewCache st))"
proof -
  obtain e1 s1 where 1: "ensurePreviewProcess env st = (e1, s1)" by (cases "ensurePreviewProcess env st")
  obtain e2 s2 where 2: "load_preview_media env (fst k) s1 = (e2, s2)" by (cases "load_preview_media env (fst k) s1")
  obtain e3 s3 where 3: "preview_command env (PreviewSeek (snd k)) s2 = (e3, s3)"
    by (cases "preview_command env (PreviewSeek (snd k)) s2")
  obtain e4 s4 where 4: "capture_file env (pe_thumbPath env k) s3 = (e4, s4)"
    by (cases "capture_file env (pe_thumbPath env k) s3")
  have c1: "br_previewCache s1 = br_previewCache st" using ensurePreviewProcess_cache[of env st] 1 by simp
  have c2: "br_previewCache s2 = br_previewCache s1" using load_preview_media_cache[of env "fst k" s1] 2 by simp
  have c3: "br_previewCache s3 = br_previewCache s2" using preview_command_cache[of env "PreviewSeek (snd k)" s2] 3 by simp
  have c4: "br_previewCache s4 = br_previewCache s3" using capture_file_cache[of env "pe_thumbPath env k" s3] 4 by simp
  show ?thesis
    by (auto simp: preview_task_def 1 2 3 4 c1 c2 c3 c4 Let_def split: option.splits)
qed

lemma preview_task_bound:
  "length (br_previewCache st) \<le> 180 \<Longrightarrow> length (br_previewCache (snd (preview_task env k st))) \<le> 180"
  using preview_task_cache[of env k st] cacheSet_bound by (metis)

lemma run_preview_task_bound:
  assumes "length (br_previewCache st) \<le> 180"
  shows "length (br_previewCache (snd (run_preview_task env st))) \<le> 180"
proof (cases "br_previewQueue st")
  case Nil
  then show ?thesis using assms by (simp add: run_preview_task_def)
next
  case (Cons k rest)
  let ?s = "st\<lparr> br_previewQueue := rest \<rparr>"
  have "length (br_previewCache (snd (preview_task env k ?s))) \<le> 180"
    using assms by (intro preview_task_bound) simp
  then show ?thesis using Cons
    by (cases "preview_task env k ?s") (auto simp: run_preview_task_def split: sum.splits)
qed

lemma handler_cache [simp]:
  "br_previewCache (snd (capture_thumbnail_handler r fp time st)) = br_previewCache st"
  by (cases r)
     (simp_all add: capture_thumbnail_handler_def withReady_def capture_action_def Let_def
        not_ready_is_transient split: option.splits)

lemma handler_not_ready: "capture_thumbnail_handler False fp time st = (Inr (Inr None), st)"
  by (simp add: capture_thumbnail_handler_def withReady_not_ready)

text \<open>
  Claim C4, as amended.  The preview cache never holds more than 180 entries after an
  insertion, and a cache within the bound stays within it whatever task or request
  runs.  An insertion of a new key into a full cache removes exactly the first entry,
  the one inserted earliest, and keeps every other entry in its place; after any
  sequence of insertions of distinct keys the cache holds the last 180 of them, in
  insertion order.  Reads do not reorder anything: a capture request never changes the
  cache.  A capture request made while the playback engine is ready (or becomes ready
  within the wait) whose key is in the cache returns the cached payload and leaves the
  bridge as it is, so no command is sent to the preview engine and no task is queued; a
  queued task that finds its key in the cache returns the cached payload in the same
  way.  A capture request made while the playback engine is not ready, and does not
  become ready within the wait, returns \<^verbatim>\<open>null\<close> and leaves the bridge as it is,
  whether or not its key is cached.
\<close>

theorem preview_cache_bounded_fifo_and_hit:
  "(length m \<le> 180 \<longrightarrow> length (cacheSet k v m) \<le> 180) \<and>
   length (foldl (\<lambda>c kv. cacheSet (fst kv) (snd kv) c) [] ins) \<le> 180 \<and>
   (distinct (map fst m) \<and> length m = 180 \<and> k \<notin> fst ` set m \<longrightarrow>
      cacheSet k v m = tl m @ [(k, v)]) \<and>
   (distinct (map fst kvs) \<longrightarrow>
      foldl (\<lambda>c kv. cacheSet (fst kv) (snd kv) c) [] kvs = drop (length kvs - 180) kvs) \<and>
   (jsmap_get (mediaPath, rounded_time time) (br_previewCache st) = Some cached \<and> mediaPath \<noteq> [] \<longrightarrow>
      capture_thumbnail_handler True (Some mediaPath) time st = (Inr (Inr (Some cached)), st)) \<and>
   (jsmap_get cacheKey (br_previewCache st) = Some cached \<longrightarrow>
      preview_task env cacheKey st = (Inr cached, st)) \<and>
   capture_thumbnail_handler False fp time st = (Inr (Inr None), st) \<and>
   br_previewCache (snd (capture_thumbnail_handler became_ready fp time st)) = br_previewCache st \<and>
   (length (br_previewCache st) \<le> 180 \<longrightarrow>
      length (br_previewCache (snd (preview_task env cacheKey st))) \<le> 180 \<and>
      length (br_previewCache (snd (run_preview_task env st))) \<le> 180)"
  using cacheSet_bound[of m k v] cacheSet_run_bound[of ins] cacheSet_evicts_oldest[of m k v]
    cacheSet_fifo_run[of kvs] capture_hit[of mediaPath time st cached] task_hit[of cacheKey st cached env]
    handler_not_ready[of fp time st] handler_cache[of became_ready fp time st]
    preview_task_bound[of st env cacheKey] run_preview_task_bound[of st env]
  by blast

lemma sample_cache_props:
  "distinct (map fst sample_cache) \<and> length sample_cache = 180 \<and> (''a.mkv'', 90) \<notin> fst ` set sample_cache"
proof -
  have "inj_on (\<lambda>i. (''a.mkv'', real i / 2)) (set [0..<180])" by (auto simp: inj_on_def)
  then have "distinct (map (\<lambda>i. (''a.mkv'', real i / 2)) [0..<180])" by (simp add: distinct_map)
  then have 1: "distinct (map fst sample_cache)" by (simp add: sample_cache_def comp_def)
  have 2: "length sample_cache = 180" by (simp add: sample_cache_def)
  have 3: "(''a.mkv'', 90) \<notin> fst ` set sample_cache" by (auto simp: sample_cache_def)
  show ?thesis using 1 2 3 by blast
qed


theorem preview_cache_bounded_fifo_and_hit_witness:
  "length sample_cache = 180 \<and>
   fst (hd sample_cache) = (''a.mkv'', 0) \<and>
   cacheSet (''a.mkv'', 90) \<lparr> dataUrl = ''e'', p_time = 90 \<rparr> sample_cache
     = tl sample_cache @ [((''a.mkv'', 90), \<lparr> dataUrl = ''e'', p_time = 90 \<rparr>)] \<and>
   capture_thumbnail_handler True (Some ''a.mkv'') 1.2
       \<lparr> br_previewCache = [((''a.mkv'', 1), \<lparr> dataUrl = ''d'', p_time = 1 \<rparr>)],
         br_previewLoadedPath = Some ''a.mkv'', br_previewProcess = True,
         br_files = (\<lambda>_. None), br_issued = [], br_previewQueue = [] \<rparr>
     = (Inr (Inr (Some \<lparr> dataUrl = ''d'', p_time = 1 \<rparr>)),
        \<lparr> br_previewCache = [((''a.mkv'', 1), \<lparr> dataUrl = ''d'', p_time = 1 \<rparr>)],
         br_previewLoadedPath = Some ''a.mkv'', br_previewProcess = True,
         br_files = (\<lambda>_. None), br_issued = [], br_previewQueue = [] \<rparr>)"
proof -
  let ?st = "\<lparr> br_previewCache = [((''a.mkv'', 1), \<lparr> dataUrl = ''d'', p_time = 1 \<rparr>)],
         br_previewLoadedPath = Some ''a.mkv'', br_previewProcess = True,
         br_files = (\<lambda>_. None), br_issued = [], br_previewQueue = [] \<rparr>"
  let ?pl = "\<lparr> dataUrl = ''e'', p_time = 90 \<rparr>"
  have hit: "jsmap_get (''a.mkv'', rounded_time 1.2) (br_previewCache ?st) = Some \<lparr> dataUrl = ''d'', p_time = 1 \<rparr>
      \<and> ''a.mkv'' \<noteq> []"
    by (simp add: rounded_time_def Let_def jsmap_get_def)
  have hd: "fst (hd sample_cache) = (''a.mkv'', 0)"
    by (simp add: sample_cache_def hd_map hd_upt)
  note t = preview_cache_bounded_fifo_and_hit[where m = sample_cache and k = "(''a.mkv'', 90)" and v = ?pl
      and mediaPath = "''a.mkv''" and time = "1.2" and st = ?st and cached = "\<lparr> dataUrl = ''d'', p_time = 1 \<rparr>"]
  show ?thesis using t sample_cache_props hit hd by blast
qed

text \<open>
  The claim as first stated promises the cached payload to every request for a cached
  key.  With the playback engine not ready, a request for a cached key returns
  \<^verbatim>\<open>null\<close>.
\<close>

theorem cached_key_not_ready_counterexample:
  "jsmap_get (''a.mkv'', rounded_time 1.2) (br_previewCache cached_bridge)
     = Some \<lparr> dataUrl = ''d'', p_time = 1 \<rparr> \<and>
   capture_thumbnail_handler False (Some ''a.mkv'') 1.2 cached_bridge = (Inr (Inr None), cached_bridge)"
  by (simp add: cached_bridge_def rounded_time_def Let_def jsmap_get_def capture_thumbnail_handler_def
      withReady_not_ready)
section \<open>Engine process manager\<close>

lemma settle_fields [simp]:
  "effects (settle p ok e st) = effects st @ [e]"
  "pending (settle p ok e st) = pending st"
  "timers (settle p ok e st) = timers st"
  "socket (settle p ok e st) = socket st"
  "process (settle p ok e st) = process st"
  "ready (settle p ok e st) = ready st"
  "requestId (settle p ok e st) = requestId st"
  "recvBuf (settle p ok e st) = recvBuf st"
  "observedProps (settle p ok e st) = observedProps st"
  "nextObsId (settle p ok e st) = nextObsId st"
  "nextTimer (settle p ok e st) = nextTimer st"
  "nextPromise (settle p ok e st) = nextPromise st"
  "readyListeners (settle p ok e st) = readyListeners st"
  "filePath (settle p ok e st) = filePath st"
  "pipeName (settle p ok e st) = pipeName st"
  "observeDefaults (settle p ok e st) = observeDefaults st"
  by (simp_all add: settle_def Let_def split: option.splits)

lemma emit_fields [simp]:
  "effects (emit n a st) = effects st @ [Emit n a]"
  "pending (emit n a st) = pending st"
  "timers (emit n a st) = timers st"
  "recvBuf (emit n a st) = recvBuf st"
  by (simp_all add: emit_def)

lemma key_of_real [simp]: "key_of (JNum (real k)) = Some k"
  by (simp add: key_of_def)

lemma jsmap_get_delete: "jsmap_get j (jsmap_delete k m) = (if j = k then None else jsmap_get j m)"
  by (induction m) (auto simp: jsmap_get_def jsmap_delete_def)

lemma clearTimeout_other: "h \<noteq> i \<Longrightarrow> map_of (clearTimeout (Some i) ts) h = map_of ts h"
  by (induction ts) (auto simp: clearTimeout_def)

lemma clearTimeout_same: "map_of (clearTimeout (Some i) ts) i = None"
  by (induction ts) (auto simp: clearTimeout_def)

lemma handle_response_match:
  assumes "jsmap_get k (pending st) = Some p"
  shows "handle_response msg (JNum (real k)) st =
     (let st1 = st\<lparr> timers := clearTimeout (Some (pr_timer p)) (timers st),
                    pending := jsmap_delete k (pending st) \<rparr>
      in if field msg ''error'' = JStr ''success''
         then resolve (pr_promise p) (field msg ''data'') st1
         else reject (pr_promise p) (js_or (field msg ''error'') (JStr ''mpv error'')) st1)"
  using assms by (simp add: handle_response_def)

lemma handleMessage_response:
  assumes "get_field msg ''request_id'' = Some (JNum (real k))" "0 < k"
  shows "handleMessage rt msg st = Some (handle_response msg (JNum (real k)) st)"
  using assms by (simp add: handleMessage_def gt_zero_def)

text \<open>
  Claim C9.  \<^verbatim>\<open>spawn\<close> on an instance that already has a process handle returns
  the instance as it is: no directory is made, no input configuration is written, no
  argument list is built, no process is started, no timer is armed and no field changes.
\<close>

theorem spawn_with_process_is_noop:
  "process st \<noteq> None \<Longrightarrow> spawn env h nativeHandle opts st = st"
  by (simp add: spawn_def)


lemma dispatch_response:
  assumes "get_field msg ''request_id'' = Some (JNum (real k))" "0 < k"
    and "jsmap_get k (pending st) = Some p"
  shows "effects (dispatch rt msg st) = effects st @
           [if field msg ''error'' = JStr ''success''
            then Resolve (pr_promise p) (field msg ''data'')
            else Reject (pr_promise p)
                   (if truthy (field msg ''error'') then field msg ''error'' else JStr ''mpv error'')]"
    and "pending (dispatch rt msg st) = jsmap_delete k (pending st)"
    and "timers (dispatch rt msg st) = clearTimeout (Some (pr_timer p)) (timers st)"
  using assms
  by (simp_all add: dispatch_def handleMessage_response handle_response_match Let_def
      resolve_def reject_def js_or_def)

text \<open>
  Claim C1, as amended.  Let response frames arrive in any order, each bearing the
  positive request id of a different pending entry.  Then the calls made are, frame by
  frame in arrival order, one settlement of the promise of the entry with the frame's id:
  \<^verbatim>\<open>resolve\<close> with the frame's data when its error field is the string
  \<^verbatim>\<open>success\<close>, otherwise \<^verbatim>\<open>reject\<close> with an error made from the frame's error
  field, or from the fixed text \<^verbatim>\<open>mpv error\<close> when that field is absent or empty.
  The entries of the answered ids are removed and their timers disarmed; every other
  entry and every other timer is as before.
\<close>

theorem responses_settle_their_own_requests:
  assumes "\<forall>r \<in> set rs. get_field (fst r) ''request_id'' = Some (JNum (real (fst (snd r))))
              \<and> 0 < fst (snd r) \<and> jsmap_get (fst (snd r)) (pending st) = Some (snd (snd r))"
    and "distinct (map (\<lambda>r. fst (snd r)) rs)"
  shows "effects (foldl (\<lambda>s m. dispatch rt m s) st (map fst rs)) = effects st @
           map (\<lambda>r. if field (fst r) ''error'' = JStr ''success''
                     then Resolve (pr_promise (snd (snd r))) (field (fst r) ''data'')
                     else Reject (pr_promise (snd (snd r)))
                            (if truthy (field (fst r) ''error'') then field (fst r) ''error''
                             else JStr ''mpv error'')) rs
         \<and> (\<forall>j. jsmap_get j (pending (foldl (\<lambda>s m. dispatch rt m s) st (map fst rs)))
                = (if j \<in> (\<lambda>r. fst (snd r)) ` set rs then None else jsmap_get j (pending st)))
         \<and> (\<forall>h. map_of (timers (foldl (\<lambda>s m. dispatch rt m s) st (map fst rs))) h
                = (if h \<in> (\<lambda>r. pr_timer (snd (snd r))) ` set rs then None else map_of (timers st) h))"
  using assms
proof (induction rs arbitrary: st)
  case Nil
  then show ?case by simp
next
  case (Cons r rs)
  obtain m k p where r: "r = (m, k, p)" by (cases r) auto
  let ?st1 = "dispatch rt m st"
  have h: "get_field m ''request_id'' = Some (JNum (real k))" "0 < k" "jsmap_get k (pending st) = Some p"
    using Cons.prems(1) r by auto
  note d = dispatch_response[OF h, of rt]
  have knot: "k \<notin> (\<lambda>r. fst (snd r)) ` set rs" using Cons.prems(2) r by auto
  have pre: "\<forall>r \<in> set rs. get_field (fst r) ''request_id'' = Some (JNum (real (fst (snd r))))
              \<and> 0 < fst (snd r) \<and> jsmap_get (fst (snd r)) (pending ?st1) = Some (snd (snd r))"
  proof
    fix x assume x: "x \<in> set rs"
    then have "fst (snd x) \<noteq> k" using knot by auto
    then show "get_field (fst x) ''request_id'' = Some (JNum (real (fst (snd x))))
              \<and> 0 < fst (snd x) \<and> jsmap_get (fst (snd x)) (pending ?st1) = Some (snd (snd x))"
      using Cons.prems(1) x d(2) by (simp add: jsmap_get_delete)
  qed
  have dist: "distinct (map (\<lambda>r. fst (snd r)) rs)" using Cons.prems(2) by simp
  note ih = Cons.IH[OF pre dist]
  have e: "effects (foldl (\<lambda>s m. dispatch rt m s) st (map fst (r # rs))) = effects st @
           map (\<lambda>r. if field (fst r) ''error'' = JStr ''success''
                     then Resolve (pr_promise (snd (snd r))) (field (fst r) ''data'')
                     else Reject (pr_promise (snd (snd r)))
                            (if truthy (field (fst r) ''error'') then field (fst r) ''error''
                             else JStr ''mpv error'')) (r # rs)"
    using ih d(1) r by simp
  have pj: "\<And>j. jsmap_get j (pending (foldl (\<lambda>s m. dispatch rt m s) st (map fst (r # rs))))
                = (if j \<in> (\<lambda>r. fst (snd r)) ` set (r # rs) then None else jsmap_get j (pending st))"
    using ih d(2) r by (simp add: jsmap_get_delete)
  have th: "\<And>h. map_of (timers (foldl (\<lambda>s m. dispatch rt m s) st (map fst (r # rs)))) h
                = (if h \<in> (\<lambda>r. pr_timer (snd (snd r))) ` set (r # rs) then None else map_of (timers st) h)"
    using ih d(3) r by (simp add: clearTimeout_other clearTimeout_same)
  show ?case using e pj th by blast
qed


lemmas mpv_defs = new_mpv_def on_connect_def emit_ready_def command_def send_def setTimeout_def
  Let_def connected_def

lemma connected_eq: "connected = (new_mpv ''pipe'' False)\<lparr> socket := Some 5, ready := True,
    effects := [Emit ''ready'' []] \<rparr>"
  by (simp add: mpv_defs)

lemma three_pending:
  "pending three_in_flight =
     [(1, \<lparr> pr_promise = 0, pr_timer = 0 \<rparr>), (2, \<lparr> pr_promise = 1, pr_timer = 1 \<rparr>),
      (3, \<lparr> pr_promise = 2, pr_timer = 2 \<rparr>)]"
  by (simp add: three_in_flight_def connected_eq new_mpv_def command_def send_def setTimeout_def Let_def)


theorem responses_settle_their_own_requests_witness:
  "effects (foldl (\<lambda>s m. dispatch sample_rt m s) three_in_flight
      [JObj [(''request_id'', JNum 3), (''error'', JStr ''success''), (''data'', JNum 50)],
       JObj [(''request_id'', JNum 1), (''error'', JStr ''property unavailable'')],
       JObj [(''data'', JBool True), (''request_id'', JNum 2), (''error'', JStr ''success'')]])
   = effects three_in_flight @
       [Resolve 2 (JNum 50), Reject 0 (JStr ''property unavailable''), Resolve 1 (JBool True)]"
proof -
  let ?m3 = "JObj [(''request_id'', JNum 3), (''error'', JStr ''success''), (''data'', JNum 50)]"
  let ?m1 = "JObj [(''request_id'', JNum 1), (''error'', JStr ''property unavailable'')]"
  let ?m2 = "JObj [(''data'', JBool True), (''request_id'', JNum 2), (''error'', JStr ''success'')]"
  let ?rs = "[(?m3, 3::nat, \<lparr> pr_promise = 2, pr_timer = 2 \<rparr>),
              (?m1, 1, \<lparr> pr_promise = 0, pr_timer = 0 \<rparr>),
              (?m2, 2, \<lparr> pr_promise = 1, pr_timer = 1 \<rparr>)]"
  have a: "\<forall>r \<in> set ?rs. get_field (fst r) ''request_id'' = Some (JNum (real (fst (snd r))))
              \<and> 0 < fst (snd r) \<and> jsmap_get (fst (snd r)) (pending three_in_flight) = Some (snd (snd r))"
    by (simp add: three_pending get_field_def jsmap_get_def)
  have b: "distinct (map (\<lambda>r. fst (snd r)) ?rs)" by simp
  show ?thesis
    using responses_settle_their_own_requests[OF a b, of sample_rt]
    by (simp add: field_def get_field_def truthy_def)
qed

text \<open>
  A matching response whose error text is empty is rejected with the text
  \<^verbatim>\<open>mpv error\<close>, not with the frame's own error text.
\<close>

theorem empty_error_text_counterexample:
  "jsmap_get 1 (pending three_in_flight) = Some \<lparr> pr_promise = 0, pr_timer = 0 \<rparr> \<and>
   field (JObj [(''request_id'', JNum 1), (''error'', JStr [])]) ''error'' = JStr [] \<and>
   effects (dispatch sample_rt (JObj [(''request_id'', JNum 1), (''error'', JStr [])]) three_in_flight)
     = effects three_in_flight @ [Reject 0 (JStr ''mpv error'')]"
  by (simp add: three_pending jsmap_get_def field_def get_field_def dispatch_def handleMessage_def
      gt_zero_def handle_response_def key_of_def Let_def reject_def js_or_def truthy_def)

theorem spawn_with_process_is_noop_witness:
  "process (spawn \<lparr> se_findBinary = ''mpv'', se_findYtDlpBinary = None, se_cookies = ''cookies.txt'',
        se_screenshots = ''screenshots'', se_inputConfPath = ''input.conf'',
        se_existsSync = (\<lambda>_. True), se_mkdir_error = None \<rparr> 1 None
      \<lparr> attachWindow = False, mpvPath = None, ytdlPath = None, cookiesPath = None,
        screenshotDir = None, hwdec = None, ytdlUserAgent = None, enableYtdlRawOptions = False \<rparr>
      (new_mpv ''pipe'' True)) = Some 1 \<and>
   spawn \<lparr> se_findBinary = ''mpv'', se_findYtDlpBinary = None, se_cookies = ''cookies.txt'',
        se_screenshots = ''screenshots'', se_inputConfPath = ''input.conf'',
        se_existsSync = (\<lambda>_. True), se_mkdir_error = None \<rparr> 2 (Some 7)
      \<lparr> attachWindow = True, mpvPath = None, ytdlPath = None, cookiesPath = None,
        screenshotDir = None, hwdec = None, ytdlUserAgent = None, enableYtdlRawOptions = False \<rparr>
      (spawn \<lparr> se_findBinary = ''mpv'', se_findYtDlpBinary = None, se_cookies = ''cookies.txt'',
        se_screenshots = ''screenshots'', se_inputConfPath = ''input.conf'',
        se_existsSync = (\<lambda>_. True), se_mkdir_error = None \<rparr> 1 None
      \<lparr> attachWindow = False, mpvPath = None, ytdlPath = None, cookiesPath = None,
        screenshotDir = None, hwdec = None, ytdlUserAgent = None, enableYtdlRawOptions = False \<rparr>
      (new_mpv ''pipe'' True))
   = spawn \<lparr> se_findBinary = ''mpv'', se_findYtDlpBinary = None, se_cookies = ''cookies.txt'',
        se_screenshots = ''screenshots'', se_inputConfPath = ''input.conf'',
        se_existsSync = (\<lambda>_. True), se_mkdir_error = None \<rparr> 1 None
      \<lparr> attachWindow = False, mpvPath = None, ytdlPath = None, cookiesPath = None,
        screenshotDir = None, hwdec = None, ytdlUserAgent = None, enableYtdlRawOptions = False \<rparr>
      (new_mpv ''pipe'' True)"
proof -
  let ?env = "\<lparr> se_findBinary = ''mpv'', se_findYtDlpBinary = None, se_cookies = ''cookies.txt'',
        se_screenshots = ''screenshots'', se_inputConfPath = ''input.conf'',
        se_existsSync = (\<lambda>_. True), se_mkdir_error = None \<rparr>"
  let ?o = "\<lparr> attachWindow = False, mpvPath = None, ytdlPath = None, cookiesPath = None,
        screenshotDir = None, hwdec = None, ytdlUserAgent = None, enableYtdlRawOptions = False \<rparr>"
  let ?s = "spawn ?env 1 None ?o (new_mpv ''pipe'' True)"
  have p: "process ?s = Some 1" by (simp add: spawn_def new_mpv_def setTimeout_def Let_def)
  then have "process ?s \<noteq> None" by simp
  from spawn_with_process_is_noop[OF this] p show ?thesis by simp
qed

subsection \<open>Invariants\<close>

lemma settled_append [simp]: "settled p (es @ fs) = settled p es + settled p fs"
  by (simp add: settled_def)

lemma settled_single [simp]:
  "settled p [Resolve q v] = (if q = p then 1 else 0)"
  "settled p [Reject q v] = (if q = p then 1 else 0)"
  "settled p [SocketWrite k v] = 0"
  "settled p [SocketDestroy k] = 0"
  "settled p [ProcessKill k] = 0"
  "settled p [Emit n a] = 0"
  "settled p [CreateConnection s k] = 0"
  "settled p [MkdirSync s] = 0"
  "settled p [WriteFileSync s t] = 0"
  "settled p [SpawnProcess k s sa] = 0"
  "settled p [Throw s] = 0"
  "settled p [] = 0"
  by (simp_all add: settled_def settles_def)

lemma jsmap_set_append: "k \<notin> fst ` set m \<Longrightarrow> jsmap_set k v m = m @ [(k, v)]"
  by (induction m) auto

lemma send_ready:
  assumes "socket st = Some k" "ready st" "inv_keys st"
  shows "send p args st =
     st\<lparr> requestId := Suc (requestId st),
        timers := timers st @ [(nextTimer st, 10000, CommandTimeout (Suc (requestId st)) p)],
        nextTimer := Suc (nextTimer st),
        pending := pending st @ [(Suc (requestId st), \<lparr> pr_promise = p, pr_timer = nextTimer st \<rparr>)],
        effects := effects st @
          [SocketWrite k (JObj [(''command'', JArr args), (''request_id'', JNum (real (Suc (requestId st))))])] \<rparr>"
proof -
  have "Suc (requestId st) \<notin> fst ` set (pending st)"
    using assms(3) unfolding inv_keys_def by fastforce
  then have "jsmap_set (Suc (requestId st)) v (pending st) = pending st @ [(Suc (requestId st), v)]" for v
    by (rule jsmap_set_append)
  then show ?thesis using assms(1,2)
    by (simp add: send_def setTimeout_def Let_def)
qed

lemma send_not_ready:
  assumes "socket st = None \<or> \<not> ready st"
  shows "send p args st = resolve p JNull st"
  using assms by (auto simp: send_def split: option.splits)

lemma settle_open [simp]: "open_promises (settle p ok e st) = open_promises st"
  by (simp add: open_promises_def settle_def Let_def split: option.splits)

lemma settle_inv_basic:
  "inv_timers (settle p ok e st) = inv_timers st"
  "inv_keys (settle p ok e st) = inv_keys st"
  "inv_pending (settle p ok e st) = inv_pending st"
  "inv_waiters (settle p ok e st) = inv_waiters st"
  by (simp_all add: inv_timers_def inv_keys_def inv_pending_def inv_waiters_def settle_def Let_def
      split: option.splits)

text \<open>Settling a promise that is held in hand.\<close>

lemma settle_inv_promises:
  assumes "inv_promises (p # xs) st" "settles p e" "\<forall>q. q \<noteq> p \<longrightarrow> \<not> settles q e"
  shows "inv_promises xs (settle p ok e st)"
proof -
  have s: "settled q [e] = (if q = p then 1 else 0)" for q
    using assms(2,3) by (simp add: settled_def)
  have p0: "settled p (effects st) = 0" "p < nextPromise st"
    using assms(1) by (simp_all add: inv_promises_def)
  have notin: "p \<notin> set (xs @ open_promises st)" using assms(1) by (simp add: inv_promises_def)
  show ?thesis
    using assms(1) p0 notin unfolding inv_promises_def
    by (auto simp: s)
qed


lemma send_inv:
  assumes "inv_x (p # xs) st"
  shows "inv_x xs (send p args st)"
proof (cases "socket st = None \<or> \<not> ready st")
  case True
  have "inv_promises xs (settle p True (Resolve p JNull) st)"
    using assms by (intro settle_inv_promises) (auto simp: inv_x_def settles_def)
  then show ?thesis using assms True
    by (simp add: send_not_ready resolve_def inv_x_def settle_inv_basic)
next
  case False
  then obtain k where k: "socket st = Some k" "ready st" by auto
  have ik: "inv_keys st" using assms by (simp add: inv_x_def)
  note sh = send_ready[OF k ik, of p args]
  have it: "inv_timers st" and ip: "inv_pending st" and iw: "inv_waiters st"
    and ipr: "inv_promises (p # xs) st"
    using assms by (simp_all add: inv_x_def)
  have 1: "inv_timers (send p args st)"
    using it unfolding sh inv_timers_def by (auto simp: less_SucI)
  have 2: "inv_keys (send p args st)"
    using ik unfolding sh inv_keys_def by (fastforce simp: le_SucI)
  have fresh: "\<forall>t \<in> set (timers st). fst t \<noteq> nextTimer st"
    using it unfolding inv_timers_def by fastforce
  have 3: "inv_pending (send p args st)"
    using ip unfolding sh inv_pending_def by auto
  have 4: "inv_waiters (send p args st)"
    using iw unfolding sh inv_waiters_def by auto
  have op: "open_promises (send p args st) =
      map (\<lambda>e. pr_promise (snd e)) (pending st) @ [p] @
      map rw_promise (filter (\<lambda>w. \<not> rw_done w) (readyListeners st))"
    unfolding sh by (simp add: open_promises_def)
  have 5: "inv_promises xs (send p args st)"
    using ipr unfolding inv_promises_def op
    by (auto simp: sh open_promises_def)
  show ?thesis using 1 2 3 4 5 by (simp add: inv_x_def)
qed

lemma command_inv:
  assumes "inv_x xs st"
  shows "inv_x xs (snd (command args st))"
proof -
  let ?p = "nextPromise st"
  let ?st0 = "st\<lparr> nextPromise := Suc ?p \<rparr>"
  have it: "inv_timers st" and ik: "inv_keys st" and ip: "inv_pending st" and iw: "inv_waiters st"
    and ipr: "inv_promises xs st"
    using assms by (simp_all add: inv_x_def)
  have o0: "open_promises ?st0 = open_promises st" by (simp add: open_promises_def)
  have pr0: "inv_promises (?p # xs) ?st0"
    using ipr unfolding inv_promises_def o0 by (auto simp: less_SucI)
  have b0: "inv_timers ?st0" "inv_keys ?st0" "inv_pending ?st0" "inv_waiters ?st0"
    using it ik ip iw by (simp_all add: inv_timers_def inv_keys_def inv_pending_def inv_waiters_def)
  have x0: "inv_x (?p # xs) ?st0" using pr0 b0 by (simp add: inv_x_def)
  show ?thesis
  proof (cases "socket st \<noteq> None \<and> ready st")
    case True
    then show ?thesis using send_inv[OF x0, of args] by (simp add: command_def Let_def)
  next
    case False
    let ?h = "nextTimer st"
    let ?st1 = "st\<lparr> nextPromise := Suc ?p,
        timers := timers st @ [(?h, 3000, GraceTimeout ?p)], nextTimer := Suc ?h,
        readyListeners := readyListeners st @
          [\<lparr> rw_promise = ?p, rw_args = args, rw_timer = ?h, rw_done = False \<rparr>] \<rparr>"
    have c: "snd (command args st) = ?st1"
      using False by (auto simp: command_def Let_def setTimeout_def)
    have 1: "inv_timers ?st1" using it unfolding inv_timers_def by (auto simp: less_SucI)
    have 2: "inv_keys ?st1" using ik unfolding inv_keys_def by simp
    have 3: "inv_pending ?st1" using ip unfolding inv_pending_def by auto
    have 4: "inv_waiters ?st1" using iw unfolding inv_waiters_def by auto
    have 5: "inv_promises xs ?st1"
      using pr0 unfolding inv_promises_def by (auto simp: open_promises_def)
    show ?thesis unfolding c using 1 2 3 4 5 by (simp add: inv_x_def)
  qed
qed


lemma inv_x_cong:
  assumes "timers st' = timers st" "nextTimer st' = nextTimer st" "pending st' = pending st"
    "requestId st' = requestId st" "readyListeners st' = readyListeners st"
    "nextPromise st' = nextPromise st" "\<And>p. settled p (effects st') = settled p (effects st)"
  shows "inv_x xs st' = inv_x xs st"
  using assms
  by (simp add: inv_x_def inv_timers_def inv_keys_def inv_pending_def inv_waiters_def
      inv_promises_def open_promises_def)

lemma handle_unique:
  assumes "inv_timers st" "(h, a) \<in> set (timers st)" "(h, b) \<in> set (timers st)"
  shows "a = b"
  using assms unfolding inv_timers_def by (meson eq_key_imp_eq_value)

lemma key_unique:
  assumes "inv_keys st" "(k, a) \<in> set (pending st)" "(k, b) \<in> set (pending st)"
  shows "a = b"
  using assms unfolding inv_keys_def by (meson eq_key_imp_eq_value)

lemma jsmap_get_mem: "jsmap_get k m = Some v \<Longrightarrow> (k, v) \<in> set m"
  by (simp add: jsmap_get_def map_of_SomeD)

lemma clearTimeout_set: "set (clearTimeout (Some h) ts) = {t \<in> set ts. fst t \<noteq> h}"
  by (auto simp: clearTimeout_def)

lemma clearTimeout_distinct: "distinct (map fst ts) \<Longrightarrow> distinct (map fst (clearTimeout h ts))"
  by (cases h) (simp_all add: clearTimeout_def distinct_map_filter)

lemma jsmap_delete_set: "set (jsmap_delete k m) = {e \<in> set m. fst e \<noteq> k}"
  by (auto simp: jsmap_delete_def)

lemma jsmap_delete_distinct: "distinct (map fst m) \<Longrightarrow> distinct (map fst (jsmap_delete k m))"
  by (simp add: jsmap_delete_def distinct_map_filter)

text \<open>Taking a pending request out of the map, with its timer, to settle it.\<close>

lemma remove_entry_inv:
  assumes i: "inv_x xs st" and e: "(k, pr) \<in> set (pending st)"
  shows "inv_x (pr_promise pr # xs)
           (st\<lparr> timers := clearTimeout (Some (pr_timer pr)) (timers st),
                pending := jsmap_delete k (pending st) \<rparr>)"
    (is "inv_x _ ?st1")
proof -
  have it: "inv_timers st" and ik: "inv_keys st" and ip: "inv_pending st" and iw: "inv_waiters st"
    and ipr: "inv_promises xs st"
    using i by (simp_all add: inv_x_def)
  let ?h = "pr_timer pr" and ?p = "pr_promise pr"
  have tm: "(?h, 10000, CommandTimeout k ?p) \<in> set (timers st)"
    using ip e unfolding inv_pending_def by fastforce
  have 1: "inv_timers ?st1"
    using it unfolding inv_timers_def by (simp add: clearTimeout_distinct clearTimeout_set)
  have 2: "inv_keys ?st1"
    using ik unfolding inv_keys_def by (simp add: jsmap_delete_distinct jsmap_delete_set)
  have 3: "inv_pending ?st1"
    unfolding inv_pending_def
  proof (intro conjI ballI allI impI)
    fix x assume x: "x \<in> set (pending ?st1)"
    then have xin: "x \<in> set (pending st)" and xk: "fst x \<noteq> k" by (simp_all add: jsmap_delete_set)
    have xt: "(pr_timer (snd x), 10000, CommandTimeout (fst x) (pr_promise (snd x))) \<in> set (timers st)"
      using ip xin unfolding inv_pending_def by blast
    have "pr_timer (snd x) \<noteq> ?h"
    proof
      assume "pr_timer (snd x) = ?h"
      then have "(10000::nat, CommandTimeout (fst x) (pr_promise (snd x))) = (10000, CommandTimeout k ?p)"
        using handle_unique[OF it _ tm] xt by metis
      then show False using xk by simp
    qed
    then show "(pr_timer (snd x), 10000, CommandTimeout (fst x) (pr_promise (snd x))) \<in> set (timers ?st1)"
      using xt by (simp add: clearTimeout_set)
  next
    fix t k' p' assume t: "t \<in> set (timers ?st1)" and cb: "snd (snd t) = CommandTimeout k' p'"
    then have tin: "t \<in> set (timers st)" and th: "fst t \<noteq> ?h" by (simp_all add: clearTimeout_set)
    have en: "(k', \<lparr> pr_promise = p', pr_timer = fst t \<rparr>) \<in> set (pending st)"
      using ip tin cb unfolding inv_pending_def by blast
    have "k' \<noteq> k"
    proof
      assume "k' = k"
      then have "pr = \<lparr> pr_promise = p', pr_timer = fst t \<rparr>"
        using key_unique[OF ik e] en by metis
      then show False using th by simp
    qed
    then show "(k', \<lparr> pr_promise = p', pr_timer = fst t \<rparr>) \<in> set (pending ?st1)"
      using en by (simp add: jsmap_delete_set)
  qed
  have 4: "inv_waiters ?st1"
    unfolding inv_waiters_def
  proof (intro conjI ballI allI impI)
    fix w assume w: "w \<in> set (readyListeners ?st1)" "\<not> rw_done w"
    then have wt: "(rw_timer w, 3000, GraceTimeout (rw_promise w)) \<in> set (timers st)"
      using iw unfolding inv_waiters_def by simp
    have "rw_timer w \<noteq> ?h"
    proof
      assume "rw_timer w = ?h"
      then have "(3000::nat, GraceTimeout (rw_promise w)) = (10000, CommandTimeout k ?p)"
        using handle_unique[OF it _ tm] wt by metis
      then show False by simp
    qed
    then show "(rw_timer w, 3000, GraceTimeout (rw_promise w)) \<in> set (timers ?st1)"
      using wt by (simp add: clearTimeout_set)
  next
    fix t p' assume t: "t \<in> set (timers ?st1)" and cb: "snd (snd t) = GraceTimeout p'"
    then have "t \<in> set (timers st)" by (simp add: clearTimeout_set)
    then show "\<exists>w\<in>set (readyListeners ?st1). rw_promise w = p' \<and> rw_timer w = fst t \<and> \<not> rw_done w"
      using iw cb unfolding inv_waiters_def by simp
  qed
  have dk: "distinct (map fst (pending st))" using ik by (simp add: inv_keys_def)
  have split: "\<exists>as bs. pending st = as @ (k, pr) # bs \<and> jsmap_delete k (pending st) = as @ bs"
  proof -
    obtain as bs where ab: "pending st = as @ (k, pr) # bs" using e by (meson split_list)
    have "\<forall>x \<in> set as \<union> set bs. fst x \<noteq> k" using dk ab by force
    then have "filter (\<lambda>e. fst e \<noteq> k) as = as" "filter (\<lambda>e. fst e \<noteq> k) bs = bs"
      by (simp_all add: filter_id_conv)
    then show ?thesis using ab by (auto simp: jsmap_delete_def)
  qed
  then obtain as bs where ab: "pending st = as @ (k, pr) # bs" "jsmap_delete k (pending st) = as @ bs"
    by blast
  let ?W = "map rw_promise (filter (\<lambda>w. \<not> rw_done w) (readyListeners st))"
  have op0: "open_promises st = map (\<lambda>e. pr_promise (snd e)) as @ [?p] @ map (\<lambda>e. pr_promise (snd e)) bs @ ?W"
    by (simp add: open_promises_def ab(1))
  have op1: "open_promises ?st1 = map (\<lambda>e. pr_promise (snd e)) as @ map (\<lambda>e. pr_promise (snd e)) bs @ ?W"
    by (simp add: open_promises_def ab(2))
  have 5: "inv_promises (?p # xs) ?st1"
    using ipr unfolding inv_promises_def op0 op1
    by auto
  show ?thesis using 1 2 3 4 5 by (simp add: inv_x_def)
qed


lemma resolve_inv: "inv_x (p # xs) st \<Longrightarrow> inv_x xs (resolve p v st)"
  unfolding resolve_def inv_x_def
  by (simp add: settle_inv_basic settle_inv_promises settles_def)

lemma reject_inv: "inv_x (p # xs) st \<Longrightarrow> inv_x xs (reject p v st)"
  unfolding reject_def inv_x_def
  by (simp add: settle_inv_basic settle_inv_promises settles_def)

lemma emit_inv: "inv_x xs (emit n a st) = inv_x xs st"
  by (rule inv_x_cong) (simp_all add: emit_def)

lemma handle_response_inv:
  assumes "inv_x xs st"
  shows "inv_x xs (handle_response msg rid st)"
proof (cases "key_of rid")
  case None
  then show ?thesis using assms by (simp add: handle_response_def)
next
  case (Some k)
  show ?thesis
  proof (cases "jsmap_get k (pending st)")
    case None
    then show ?thesis using assms Some by (simp add: handle_response_def)
  next
    case (Some pr)
    note r = remove_entry_inv[OF assms jsmap_get_mem[OF Some]]
    show ?thesis using \<open>key_of rid = Some k\<close> Some resolve_inv[OF r] reject_inv[OF r]
      by (simp add: handle_response_def Let_def)
  qed
qed

lemma handle_event_inv: "inv_x xs st \<Longrightarrow> inv_x xs (handle_event msg st)"
  by (simp add: handle_event_def Let_def emit_inv)

lemma dispatch_inv: "inv_x xs st \<Longrightarrow> inv_x xs (dispatch rt msg st)"
  by (simp add: dispatch_def handleMessage_def handle_response_inv handle_event_inv
      split: option.splits)

lemma on_line_inv: "inv_x xs st \<Longrightarrow> inv_x xs (on_line rt st line)"
  by (simp add: on_line_def dispatch_inv split: option.splits)

lemma foldl_inv:
  assumes "\<And>s x. P s \<Longrightarrow> P (f s x)" "P s"
  shows "P (foldl f s xs)"
  using assms(2) by (induction xs arbitrary: s) (simp_all add: assms(1))

lemma onData_inv: "inv_x xs st \<Longrightarrow> inv_x xs (onData rt chunk st)"
proof -
  assume a: "inv_x xs st"
  have "inv_x xs (st\<lparr> recvBuf := b \<rparr>)" for b
    using a inv_x_cong[of "st\<lparr> recvBuf := b \<rparr>" st xs] by simp
  then show ?thesis
    unfolding onData_def onText_def Let_def
    by (intro foldl_inv[where P = "inv_x xs"]) (simp_all add: on_line_inv)
qed


lemma map_of_mem: "map_of ts h = Some v \<Longrightarrow> (h, v) \<in> set ts"
  by (rule map_of_SomeD)

lemma fire_connect_inv:
  assumes i: "inv_x xs st" and t: "(h, d, ConnectSocket r) \<in> set (timers st)"
  shows "inv_x xs (connectSocket r (st\<lparr> timers := clearTimeout (Some h) (timers st) \<rparr>))"
proof -
  let ?st1 = "st\<lparr> timers := clearTimeout (Some h) (timers st) \<rparr>"
  have it: "inv_timers st" and ik: "inv_keys st" and ip: "inv_pending st" and iw: "inv_waiters st"
    and ipr: "inv_promises xs st"
    using i by (simp_all add: inv_x_def)
  have 1: "inv_timers ?st1"
    using it unfolding inv_timers_def by (simp add: clearTimeout_distinct clearTimeout_set)
  have 2: "inv_keys ?st1" using ik unfolding inv_keys_def by simp
  have other: "\<And>a. (h, a) \<in> set (timers st) \<Longrightarrow> a = (d, ConnectSocket r)"
    using handle_unique[OF it _ t] by blast
  have 3: "inv_pending ?st1"
    using ip other unfolding inv_pending_def by (fastforce simp: clearTimeout_set)
  have 4: "inv_waiters ?st1"
    using iw other unfolding inv_waiters_def by (fastforce simp: clearTimeout_set)
  have 5: "inv_promises xs ?st1"
    using ipr unfolding inv_promises_def open_promises_def by simp
  have "inv_x xs ?st1" using 1 2 3 4 5 by (simp add: inv_x_def)
  moreover have "inv_x xs (connectSocket r ?st1) = inv_x xs ?st1"
    by (rule inv_x_cong) (simp_all add: connectSocket_def)
  ultimately show ?thesis by simp
qed

lemma fire_timeout_inv:
  assumes i: "inv_x xs st" and t: "(h, d, CommandTimeout k p) \<in> set (timers st)"
  shows "inv_x xs (grace_or_timeout (CommandTimeout k p) (st\<lparr> timers := clearTimeout (Some h) (timers st) \<rparr>))"
proof -
  have ip: "inv_pending st" using i by (simp add: inv_x_def)
  have e: "(k, \<lparr> pr_promise = p, pr_timer = h \<rparr>) \<in> set (pending st)"
    using ip t unfolding inv_pending_def by fastforce
  from reject_inv[OF remove_entry_inv[OF i e]] show ?thesis
    by (simp add: grace_or_timeout_def)
qed


lemma mark_done_open:
  "map rw_promise (filter (\<lambda>w. \<not> rw_done w)
       (map (\<lambda>w. if rw_promise w = p then w\<lparr> rw_done := True \<rparr> else w) ws))
   = filter (\<lambda>q. q \<noteq> p) (map rw_promise (filter (\<lambda>w. \<not> rw_done w) ws))"
  by (induction ws) auto

lemma fire_grace_inv:
  assumes i: "inv_x xs st" and t: "(h, d, GraceTimeout p) \<in> set (timers st)"
  shows "inv_x xs (grace_or_timeout (GraceTimeout p) (st\<lparr> timers := clearTimeout (Some h) (timers st) \<rparr>))"
proof -
  have it: "inv_timers st" and ik: "inv_keys st" and ip: "inv_pending st" and iw: "inv_waiters st"
    and ipr: "inv_promises xs st"
    using i by (simp_all add: inv_x_def)
  let ?ws = "readyListeners st"
  let ?ws' = "map (\<lambda>w. if rw_promise w = p then w\<lparr> rw_done := True \<rparr> else w) ?ws"
  let ?st2 = "st\<lparr> timers := clearTimeout (Some h) (timers st), readyListeners := ?ws' \<rparr>"
  obtain w0 where w0: "w0 \<in> set ?ws" "rw_promise w0 = p" "rw_timer w0 = h" "\<not> rw_done w0"
    using iw t unfolding inv_waiters_def by fastforce
  have ex: "list_ex (\<lambda>w. rw_promise w = p \<and> \<not> rw_done w) ?ws"
    using w0 by (auto simp: list_ex_iff)
  have g: "grace_or_timeout (GraceTimeout p) (st\<lparr> timers := clearTimeout (Some h) (timers st) \<rparr>)
      = resolve p JNull ?st2"
    using ex by (simp add: grace_or_timeout_def grace_timeout_def)
  have other: "\<And>a. (h, a) \<in> set (timers st) \<Longrightarrow> a = (d, GraceTimeout p)"
    using handle_unique[OF it _ t] by blast
  have dW: "distinct (map rw_promise (filter (\<lambda>w. \<not> rw_done w) ?ws))"
    using ipr unfolding inv_promises_def open_promises_def by simp
  have uniq: "\<And>w. w \<in> set ?ws \<Longrightarrow> \<not> rw_done w \<Longrightarrow> rw_promise w = p \<Longrightarrow> w = w0"
  proof -
    fix w assume "w \<in> set ?ws" "\<not> rw_done w" "rw_promise w = p"
    then have "w \<in> set (filter (\<lambda>w. \<not> rw_done w) ?ws)" "w0 \<in> set (filter (\<lambda>w. \<not> rw_done w) ?ws)"
      "rw_promise w = rw_promise w0"
      using w0 by simp_all
    then show "w = w0" using dW by (meson distinct_map inj_on_def)
  qed
  have 1: "inv_timers ?st2"
    using it unfolding inv_timers_def by (simp add: clearTimeout_distinct clearTimeout_set)
  have 2: "inv_keys ?st2" using ik unfolding inv_keys_def by simp
  have 3: "inv_pending ?st2"
    using ip other unfolding inv_pending_def by (fastforce simp: clearTimeout_set)
  have 4: "inv_waiters ?st2"
    unfolding inv_waiters_def
  proof (intro conjI ballI allI impI)
    fix w assume w: "w \<in> set (readyListeners ?st2)" "\<not> rw_done w"
    then obtain v where v: "v \<in> set ?ws" "w = (if rw_promise v = p then v\<lparr> rw_done := True \<rparr> else v)"
      by auto
    then have vw: "v = w" "rw_promise w \<noteq> p" using w(2) by (auto split: if_splits)
    then have wt: "(rw_timer w, 3000, GraceTimeout (rw_promise w)) \<in> set (timers st)"
      using iw v(1) w(2) unfolding inv_waiters_def by blast
    have "rw_timer w \<noteq> h" using other wt vw(2) by fastforce
    then show "(rw_timer w, 3000, GraceTimeout (rw_promise w)) \<in> set (timers ?st2)"
      using wt by (simp add: clearTimeout_set)
  next
    fix t' p' assume t': "t' \<in> set (timers ?st2)" and cb: "snd (snd t') = GraceTimeout p'"
    then have tin: "t' \<in> set (timers st)" and th: "fst t' \<noteq> h" by (simp_all add: clearTimeout_set)
    then obtain w where w: "w \<in> set ?ws" "rw_promise w = p'" "rw_timer w = fst t'" "\<not> rw_done w"
      using iw cb unfolding inv_waiters_def by blast
    have "p' \<noteq> p" using uniq[OF w(1) w(4)] w(2,3) w0(3) th by auto
    then have "w \<in> set ?ws'" using w(1,2) by (force simp: image_iff)
    then show "\<exists>w\<in>set (readyListeners ?st2). rw_promise w = p' \<and> rw_timer w = fst t' \<and> \<not> rw_done w"
      using w by auto
  qed
  let ?P = "map (\<lambda>e. pr_promise (snd e)) (pending st)"
  let ?W = "map rw_promise (filter (\<lambda>w. \<not> rw_done w) ?ws)"
  have op0: "open_promises st = ?P @ ?W" by (simp add: open_promises_def)
  have op1: "open_promises ?st2 = ?P @ filter (\<lambda>q. q \<noteq> p) ?W"
    by (simp add: open_promises_def mark_done_open)
  have pW: "p \<in> set ?W" using w0 by force
  have 5: "inv_promises (p # xs) ?st2"
    using ipr pW unfolding inv_promises_def op0 op1
    by auto
  have "inv_x (p # xs) ?st2" using 1 2 3 4 5 by (simp add: inv_x_def)
  then show ?thesis unfolding g by (rule resolve_inv)
qed

lemma fire_timer_inv: "inv_x xs st \<Longrightarrow> inv_x xs (fire_timer h st)"
proof -
  assume i: "inv_x xs st"
  show ?thesis
  proof (cases "map_of (timers st) h")
    case None
    then show ?thesis using i by (simp add: fire_timer_def)
  next
    case (Some v)
    obtain d cb where v: "v = (d, cb)" by (cases v)
    have m: "(h, d, cb) \<in> set (timers st)" using Some v by (simp add: map_of_mem)
    have f: "fire_timer h st = grace_or_timeout cb (st\<lparr> timers := clearTimeout (Some h) (timers st) \<rparr>)"
      using Some v by (simp add: fire_timer_def)
    show ?thesis
    proof (cases cb)
      case (CommandTimeout k p)
      then show ?thesis using fire_timeout_inv[OF i] m f by simp
    next
      case (GraceTimeout p)
      then show ?thesis using fire_grace_inv[OF i] m f by simp
    next
      case (ConnectSocket r)
      then show ?thesis using fire_connect_inv[OF i] m f by (simp add: grace_or_timeout_def)
    qed
  qed
qed


lemma settle_listeners_commute:
  "settle p ok e (st\<lparr> readyListeners := m \<rparr>) = (settle p ok e st)\<lparr> readyListeners := m \<rparr>"
  by (simp add: settle_def Let_def split: option.splits)

lemma send_listeners_commute:
  "send p args (st\<lparr> readyListeners := m \<rparr>) = (send p args st)\<lparr> readyListeners := m \<rparr>"
  by (simp add: send_def resolve_def settle_listeners_commute setTimeout_def Let_def split: option.splits)

lemma ready_listener_commute:
  "ready_listener w (st\<lparr> readyListeners := m \<rparr>) = (ready_listener w st)\<lparr> readyListeners := m \<rparr>"
proof -
  let ?T = "clearTimeout (Some (rw_timer w)) (timers st)"
  have sw: "st\<lparr> readyListeners := m, timers := ?T \<rparr> = st\<lparr> timers := ?T, readyListeners := m \<rparr>"
    by (cases st) simp
  show ?thesis
    using send_listeners_commute[where p = "rw_promise w" and args = "rw_args w"
      and st = "st\<lparr> timers := ?T \<rparr>" and m = m]
    by (simp add: ready_listener_def sw)
qed

lemma send_listeners [simp]: "readyListeners (send p args st) = readyListeners st"
  by (simp add: send_def resolve_def setTimeout_def Let_def split: option.splits)

lemma ready_listener_listeners [simp]: "readyListeners (ready_listener w st) = readyListeners st"
  by (simp add: ready_listener_def)

lemma ready_step_inv:
  assumes i: "inv_x xs st" and l: "readyListeners st = w # ws"
  shows "inv_x xs (ready_listener w (st\<lparr> readyListeners := ws \<rparr>))"
proof -
  have it: "inv_timers st" and ik: "inv_keys st" and ip: "inv_pending st" and iw: "inv_waiters st"
    and ipr: "inv_promises xs st"
    using i by (simp_all add: inv_x_def)
  let ?P = "map (\<lambda>e. pr_promise (snd e)) (pending st)"
  let ?W = "map rw_promise (filter (\<lambda>w. \<not> rw_done w) ws)"
  show ?thesis
  proof (cases "rw_done w")
    case True
    let ?s1 = "st\<lparr> readyListeners := ws \<rparr>"
    have 1: "inv_timers ?s1" using it by (simp add: inv_timers_def)
    have 2: "inv_keys ?s1" using ik by (simp add: inv_keys_def)
    have 3: "inv_pending ?s1" using ip by (simp add: inv_pending_def)
    have 4: "inv_waiters ?s1"
      unfolding inv_waiters_def
    proof (intro conjI ballI allI impI)
      fix v assume "v \<in> set (readyListeners ?s1)" "\<not> rw_done v"
      then show "(rw_timer v, 3000, GraceTimeout (rw_promise v)) \<in> set (timers ?s1)"
        using iw l unfolding inv_waiters_def by simp
    next
      fix t' p' assume t': "t' \<in> set (timers ?s1)" and cb: "snd (snd t') = GraceTimeout p'"
      then obtain v where v: "v \<in> set (w # ws)" "rw_promise v = p'" "rw_timer v = fst t'" "\<not> rw_done v"
        using iw l unfolding inv_waiters_def by (simp, metis)
      then have "v \<in> set ws" using True by auto
      then show "\<exists>w\<in>set (readyListeners ?s1). rw_promise w = p' \<and> rw_timer w = fst t' \<and> \<not> rw_done w"
        using v by auto
    qed
    have 5: "inv_promises xs ?s1"
      using ipr True l unfolding inv_promises_def open_promises_def by simp
    show ?thesis using True 1 2 3 4 5 by (simp add: ready_listener_def inv_x_def)
  next
    case False
    let ?h = "rw_timer w" and ?p = "rw_promise w"
    let ?s2 = "st\<lparr> readyListeners := ws, timers := clearTimeout (Some ?h) (timers st) \<rparr>"
    have tm: "(?h, 3000, GraceTimeout ?p) \<in> set (timers st)"
      using iw False l unfolding inv_waiters_def by simp
    have other: "\<And>a. (?h, a) \<in> set (timers st) \<Longrightarrow> a = (3000, GraceTimeout ?p)"
      using handle_unique[OF it _ tm] by blast
    have op0: "open_promises st = ?P @ ?p # ?W" using False l by (simp add: open_promises_def)
    have op1: "open_promises ?s2 = ?P @ ?W" by (simp add: open_promises_def)
    have pW: "?p \<notin> set ?W" using ipr unfolding inv_promises_def op0 by simp
    have 1: "inv_timers ?s2"
      using it unfolding inv_timers_def by (simp add: clearTimeout_distinct clearTimeout_set)
    have 2: "inv_keys ?s2" using ik unfolding inv_keys_def by simp
    have 3: "inv_pending ?s2"
      using ip other unfolding inv_pending_def by (fastforce simp: clearTimeout_set)
    have 4: "inv_waiters ?s2"
      unfolding inv_waiters_def
    proof (intro conjI ballI allI impI)
      fix v assume v: "v \<in> set (readyListeners ?s2)" "\<not> rw_done v"
      then have vt: "(rw_timer v, 3000, GraceTimeout (rw_promise v)) \<in> set (timers st)"
        using iw l unfolding inv_waiters_def by simp
      have "rw_promise v \<in> set ?W" using v by simp
      then have "rw_promise v \<noteq> ?p" using pW by metis
      then have "rw_timer v \<noteq> ?h" using other vt by fastforce
      then show "(rw_timer v, 3000, GraceTimeout (rw_promise v)) \<in> set (timers ?s2)"
        using vt by (simp add: clearTimeout_set)
    next
      fix t' p' assume t': "t' \<in> set (timers ?s2)" and cb: "snd (snd t') = GraceTimeout p'"
      then have tin: "t' \<in> set (timers st)" and th: "fst t' \<noteq> ?h" by (simp_all add: clearTimeout_set)
      then obtain v where v: "v \<in> set (w # ws)" "rw_promise v = p'" "rw_timer v = fst t'" "\<not> rw_done v"
        using iw cb l unfolding inv_waiters_def by metis
      then have "v \<in> set ws" using th by auto
      then show "\<exists>w\<in>set (readyListeners ?s2). rw_promise w = p' \<and> rw_timer w = fst t' \<and> \<not> rw_done w"
        using v by auto
    qed
    have 5: "inv_promises (?p # xs) ?s2"
      using ipr unfolding inv_promises_def op0 op1 by auto
    have "inv_x (?p # xs) ?s2" using 1 2 3 4 5 by (simp add: inv_x_def)
    from send_inv[OF this, of "rw_args w"] show ?thesis
      using False by (simp add: ready_listener_def)
  qed
qed

lemma ready_fold_inv:
  "inv_x xs st \<Longrightarrow> readyListeners st = ws \<Longrightarrow>
   inv_x xs (foldl (\<lambda>s w. ready_listener w s) (st\<lparr> readyListeners := [] \<rparr>) ws)"
proof (induction ws arbitrary: st)
  case Nil
  have "inv_x xs (st\<lparr> readyListeners := [] \<rparr>) = inv_x xs st"
    using Nil.prems(2) by (intro inv_x_cong) simp_all
  then show ?case using Nil.prems(1) by simp
next
  case (Cons w ws)
  let ?s' = "ready_listener w (st\<lparr> readyListeners := ws \<rparr>)"
  have 1: "inv_x xs ?s'" using ready_step_inv[OF Cons.prems] .
  have 2: "readyListeners ?s' = ws" by simp
  have 3: "?s'\<lparr> readyListeners := [] \<rparr> = ready_listener w (st\<lparr> readyListeners := [] \<rparr>)"
    using ready_listener_commute[where w = w and st = "st\<lparr> readyListeners := ws \<rparr>" and m = "[]"]
    by simp
  show ?case using Cons.IH[OF 1 2] 3 by simp
qed

lemma emit_ready_inv: "inv_x xs st \<Longrightarrow> inv_x xs (emit_ready st)"
proof -
  assume i: "inv_x xs st"
  let ?s = "st\<lparr> effects := effects st @ [Emit ''ready'' []] \<rparr>"
  have "inv_x xs ?s = inv_x xs st" by (rule inv_x_cong) simp_all
  then have "inv_x xs ?s" using i by simp
  then have f: "inv_x xs (foldl (\<lambda>s w. ready_listener w s) (?s\<lparr> readyListeners := [] \<rparr>) (readyListeners st))"
    using ready_fold_inv[of xs ?s "readyListeners st"] by simp
  have eq: "st\<lparr> readyListeners := [], effects := effects st @ [Emit ''ready'' []] \<rparr>
      = ?s\<lparr> readyListeners := [] \<rparr>" by (cases st) simp
  show ?thesis unfolding emit_ready_def eq using f .
qed

lemma settle_pending_commute:
  "settle p ok e (st\<lparr> pending := m \<rparr>) = (settle p ok e st)\<lparr> pending := m \<rparr>"
  by (simp add: settle_def Let_def split: option.splits)

lemma reject_destroyed_commute:
  "reject_destroyed (st\<lparr> pending := m \<rparr>) e = (reject_destroyed st e)\<lparr> pending := m \<rparr>"
proof -
  let ?T = "clearTimeout (Some (pr_timer (snd e))) (timers st)"
  have sw: "st\<lparr> pending := m, timers := ?T \<rparr> = st\<lparr> timers := ?T, pending := m \<rparr>"
    by (cases st) simp
  show ?thesis
    using settle_pending_commute[where st = "st\<lparr> timers := ?T \<rparr>" and m = m]
    by (simp add: reject_destroyed_def reject_def sw)
qed

lemma reject_destroyed_fold_commute:
  "foldl reject_destroyed (st\<lparr> pending := m \<rparr>) es = (foldl reject_destroyed st es)\<lparr> pending := m \<rparr>"
  by (induction es arbitrary: st) (simp_all add: reject_destroyed_commute)

lemma reject_destroyed_pending [simp]: "pending (reject_destroyed st e) = pending st"
  by (simp add: reject_destroyed_def reject_def)

lemma destroy_fold_inv:
  "inv_x xs st \<Longrightarrow> pending st = es \<Longrightarrow> inv_x xs ((foldl reject_destroyed st es)\<lparr> pending := [] \<rparr>)"
proof (induction es arbitrary: st)
  case Nil
  have "inv_x xs (st\<lparr> pending := [] \<rparr>) = inv_x xs st"
    using Nil.prems(2) by (intro inv_x_cong) simp_all
  then show ?case using Nil.prems(1) by simp
next
  case (Cons e es)
  obtain k pr where e: "e = (k, pr)" by (cases e)
  have mem: "(k, pr) \<in> set (pending st)" using Cons.prems(2) e by simp
  let ?s1 = "st\<lparr> timers := clearTimeout (Some (pr_timer pr)) (timers st),
                  pending := jsmap_delete k (pending st) \<rparr>"
  let ?s' = "reject (pr_promise pr) (JStr ''mpv destroyed'') ?s1"
  have 1: "inv_x xs ?s'" using reject_inv[OF remove_entry_inv[OF Cons.prems(1) mem]] .
  have dk: "distinct (map fst (e # es))"
    using Cons.prems by (simp add: inv_x_def inv_keys_def)
  have del: "jsmap_delete k (pending st) = es"
    using jsmap_delete_head[OF dk] Cons.prems(2) e by simp
  have 2: "pending ?s' = es" using del by (simp add: reject_def)
  have rd: "reject_destroyed st e = ?s'\<lparr> pending := pending st \<rparr>"
  proof -
    let ?T = "clearTimeout (Some (pr_timer pr)) (timers st)"
    let ?R = "Reject (pr_promise pr) (JStr ''mpv destroyed'')"
    have a: "?s1\<lparr> pending := pending st \<rparr> = st\<lparr> timers := ?T \<rparr>" by (cases st) simp
    have "?s'\<lparr> pending := pending st \<rparr> = (settle (pr_promise pr) False ?R ?s1)\<lparr> pending := pending st \<rparr>"
      by (simp only: reject_def)
    also have "\<dots> = settle (pr_promise pr) False ?R (?s1\<lparr> pending := pending st \<rparr>)"
      by (rule settle_pending_commute[symmetric])
    also have "\<dots> = settle (pr_promise pr) False ?R (st\<lparr> timers := ?T \<rparr>)"
      by (simp only: a)
    also have "\<dots> = reject_destroyed st (k, pr)"
      by (simp only: reject_destroyed_def reject_def snd_conv)
    finally show ?thesis using e by simp
  qed
  have "(foldl reject_destroyed st (e # es))\<lparr> pending := [] \<rparr>
      = ((foldl reject_destroyed ?s' es)\<lparr> pending := pending st \<rparr>)\<lparr> pending := [] \<rparr>"
    by (simp only: foldl_Cons rd reject_destroyed_fold_commute)
  also have "\<dots> = (foldl reject_destroyed ?s' es)\<lparr> pending := [] \<rparr>"
    by simp
  finally show ?case using Cons.IH[OF 1 2] by (simp only:)
qed


lemma destroy_inv:
  assumes i: "inv_x xs st"
  shows "inv_x xs (destroy st)"
proof -
  let ?st1 = "(case socket st of
                   None \<Rightarrow> st
                 | Some sock \<Rightarrow>
                     (let st0 = snd (command [JStr ''quit''] st) in
                      st0\<lparr> effects := effects st0 @ [SocketDestroy sock], socket := None \<rparr>))"
  have 1: "inv_x xs ?st1"
  proof (cases "socket st")
    case None
    then show ?thesis using i by simp
  next
    case (Some sock)
    let ?st0 = "snd (command [JStr ''quit''] st)"
    have "inv_x xs (?st0\<lparr> effects := effects ?st0 @ [SocketDestroy sock], socket := None \<rparr>) = inv_x xs ?st0"
      by (rule inv_x_cong) simp_all
    then show ?thesis using Some command_inv[OF i, of "[JStr ''quit'']"] by (simp add: Let_def)
  qed
  let ?st2 = "(case process ?st1 of
                   None \<Rightarrow> ?st1
                 | Some h \<Rightarrow> ?st1\<lparr> effects := effects ?st1 @ [ProcessKill h], process := None \<rparr>)"
  have 2: "inv_x xs ?st2"
  proof (cases "process ?st1")
    case None
    then show ?thesis using 1 by simp
  next
    case (Some h)
    have "inv_x xs (?st1\<lparr> effects := effects ?st1 @ [ProcessKill h], process := None \<rparr>) = inv_x xs ?st1"
      by (rule inv_x_cong) simp_all
    then show ?thesis using Some 1 by simp
  qed
  let ?st3 = "?st2\<lparr> ready := False \<rparr>"
  have "inv_x xs ?st3 = inv_x xs ?st2" by (rule inv_x_cong) simp_all
  then have 3: "inv_x xs ?st3" using 2 by simp
  have "destroy st = (foldl reject_destroyed ?st3 (pending ?st3))\<lparr> pending := [] \<rparr>"
    by (simp only: destroy_def Let_def)
  then show ?thesis using destroy_fold_inv[OF 3 refl] by (simp only:)
qed



lemma observeProperty_inv: "inv_x xs st \<Longrightarrow> inv_x xs (snd (observeProperty name st))"
proof -
  assume i: "inv_x xs st"
  let ?s = "st\<lparr> nextObsId := Suc (nextObsId st),
               observedProps := jsmap_set (nextObsId st) name (observedProps st) \<rparr>"
  have "inv_x xs ?s = inv_x xs st" by (rule inv_x_cong) simp_all
  then show ?thesis using i command_inv[of xs ?s] by (simp add: observeProperty_def Let_def)
qed

lemma loadFile_inv: "inv_x xs st \<Longrightarrow> inv_x xs (snd (loadFile path st))"
proof -
  assume i: "inv_x xs st"
  have "inv_x xs (st\<lparr> filePath := Some path \<rparr>) = inv_x xs st" by (rule inv_x_cong) simp_all
  then show ?thesis using i command_inv[of xs "st\<lparr> filePath := Some path \<rparr>"]
    by (simp add: loadFile_def)
qed

lemma await_promise_inv: "inv_x xs (await_promise q k st) = inv_x xs st"
  by (rule inv_x_cong) (simp_all add: await_promise_def)

lemma observe_loop_inv: "inv_x xs st \<Longrightarrow> inv_x xs (observe_loop props st)"
proof (cases props)
  case Nil
  then show "inv_x xs st \<Longrightarrow> ?thesis" by (simp add: observe_loop_def)
next
  case (Cons p rest)
  assume i: "inv_x xs st"
  obtain q st1 where o: "observeProperty p st = (q, st1)" by (cases "observeProperty p st")
  then have "inv_x xs st1" using observeProperty_inv[OF i, of p] by simp
  then show ?thesis using Cons o by (simp add: observe_loop_def await_promise_inv)
qed

lemma observeDefaults_start_inv: "inv_x xs st \<Longrightarrow> inv_x xs (observeDefaults_start st)"
proof -
  assume i: "inv_x xs st"
  obtain q st1 where o: "command [JStr ''request_log_messages'', JStr ''debug''] st = (q, st1)"
    by (cases "command [JStr ''request_log_messages'', JStr ''debug''] st")
  then have "inv_x xs st1" using command_inv[OF i, of "[JStr ''request_log_messages'', JStr ''debug'']"] by simp
  then show ?thesis using o by (simp add: observeDefaults_start_def await_promise_inv)
qed

lemma run_microtask_inv: "inv_x xs st \<Longrightarrow> inv_x xs (run_microtask st)"
proof -
  assume i: "inv_x xs st"
  show ?thesis
  proof (cases "microtasks st")
    case Nil
    then show ?thesis using i by (simp add: run_microtask_def)
  next
    case (Cons a rest)
    obtain k ok where a: "a = (k, ok)" by (cases a)
    have "inv_x xs (st\<lparr> microtasks := rest \<rparr>) = inv_x xs st" by (rule inv_x_cong) simp_all
    then have "inv_x xs (st\<lparr> microtasks := rest \<rparr>)" using i by simp
    then have "inv_x xs (resume k ok (st\<lparr> microtasks := rest \<rparr>))"
      by (cases k) (simp_all add: resume_def observe_loop_inv)
    then show ?thesis using Cons a by (simp add: run_microtask_def)
  qed
qed

lemma on_connect_inv: "inv_x xs st \<Longrightarrow> inv_x xs (on_connect sock st)"
proof -
  assume i: "inv_x xs st"
  let ?s = "st\<lparr> socket := Some sock, ready := True, recvBuf := [] \<rparr>"
  have "inv_x xs ?s = inv_x xs st" by (rule inv_x_cong) simp_all
  then have "inv_x xs (emit_ready ?s)" using i emit_ready_inv by simp
  then show ?thesis by (simp add: on_connect_def Let_def observeDefaults_start_inv)
qed

lemma connect_timer_inv:
  assumes i: "inv_x xs st"
  shows "inv_x xs (snd (setTimeout (ConnectSocket r) d st))"
proof -
  have it: "inv_timers st" and ik: "inv_keys st" and ip: "inv_pending st" and iw: "inv_waiters st"
    and ipr: "inv_promises xs st"
    using i by (simp_all add: inv_x_def)
  let ?s = "st\<lparr> timers := timers st @ [(nextTimer st, d, ConnectSocket r)], nextTimer := Suc (nextTimer st) \<rparr>"
  have 1: "inv_timers ?s" using it unfolding inv_timers_def by (auto simp: less_SucI)
  have 2: "inv_keys ?s" using ik unfolding inv_keys_def by simp
  have 3: "inv_pending ?s" using ip unfolding inv_pending_def by auto
  have 4: "inv_waiters ?s" using iw unfolding inv_waiters_def by auto
  have 5: "inv_promises xs ?s" using ipr unfolding inv_promises_def open_promises_def by simp
  show ?thesis using 1 2 3 4 5 by (simp add: setTimeout_def inv_x_def)
qed

lemma on_socket_error_inv: "inv_x xs st \<Longrightarrow> inv_x xs (on_socket_error r m st)"
  by (simp add: on_socket_error_def connect_timer_inv emit_inv)

lemma effects_inv:
  assumes "\<And>p. settled p es = 0"
  shows "inv_x xs (st\<lparr> effects := effects st @ es \<rparr>) = inv_x xs st"
    and "inv_x xs (st\<lparr> effects := effects st @ es, process := pr \<rparr>) = inv_x xs st"
  by (rule inv_x_cong; simp add: assms)+

lemma spawn_inv: "inv_x xs st \<Longrightarrow> inv_x xs (spawn env h nh opts st)"
proof -
  assume i: "inv_x xs st"
  have z: "\<And>p a b c d e f g. settled p [MkdirSync a, Throw b] = 0
      \<and> settled p [MkdirSync a, WriteFileSync c d, SpawnProcess e f g] = 0
      \<and> settled p [WriteFileSync c d, SpawnProcess e f g] = 0"
    by (simp add: settled_def settles_def)
  show ?thesis
  proof (cases "process st \<noteq> None")
    case True
    then show ?thesis using i by (simp add: spawn_def)
  next
    case False
    show ?thesis
    proof (cases "se_existsSync env (or_else (screenshotDir opts) (se_screenshots env))")
      case True
      let ?s2 = "st\<lparr> effects := effects st @
                          [WriteFileSync (se_inputConfPath env) inputConfContent,
                           SpawnProcess h (or_else (mpvPath opts) (se_findBinary env))
                             (spawn_args env (pipeName st) nh opts)],
                        process := Some h \<rparr>"
      have "inv_x xs ?s2" using i effects_inv(2)[where xs = xs and st = st] z by simp
      then have "inv_x xs (snd (setTimeout (ConnectSocket 10) 300 ?s2))" by (rule connect_timer_inv)
      then show ?thesis using True False by (simp add: spawn_def Let_def)
    next
      case nex: False
      show ?thesis
      proof (cases "se_mkdir_error env")
        case (Some err)
        let ?s1 = "st\<lparr> effects := effects st @ [MkdirSync (or_else (screenshotDir opts) (se_screenshots env)), Throw err] \<rparr>"
        have "inv_x xs ?s1" using i effects_inv(1)[where xs = xs and st = st] z by simp
        then show ?thesis using nex False Some by (simp add: spawn_def Let_def)
      next
        case None
        let ?s2 = "st\<lparr> effects := effects st @
                          [MkdirSync (or_else (screenshotDir opts) (se_screenshots env)),
                           WriteFileSync (se_inputConfPath env) inputConfContent,
                           SpawnProcess h (or_else (mpvPath opts) (se_findBinary env))
                             (spawn_args env (pipeName st) nh opts)],
                        process := Some h \<rparr>"
        have "inv_x xs ?s2" using i effects_inv(2)[where xs = xs and st = st] z by simp
        then have "inv_x xs (snd (setTimeout (ConnectSocket 10) 300 ?s2))" by (rule connect_timer_inv)
        then show ?thesis using nex False None by (simp add: spawn_def Let_def)
      qed
    qed
  qed
qed

lemma step_inv: "inv_x xs st \<Longrightarrow> inv_x xs (step rt env st e)"
proof (cases e)
  case (ProcStdout t)
  assume "inv_x xs st"
  then show ?thesis using ProcStdout by (simp add: step_def on_stdout_def emit_inv)
next
  case (ProcStderr t)
  assume "inv_x xs st"
  then show ?thesis using ProcStderr by (simp add: step_def on_stderr_def emit_inv)
next
  case (ProcError m)
  assume i: "inv_x xs st"
  have "inv_x xs (on_process_error m st) = inv_x xs st"
    by (rule inv_x_cong) (simp_all add: on_process_error_def emit_def)
  then show ?thesis using i ProcError by (simp add: step_def)
next
  case (ProcExit c)
  assume i: "inv_x xs st"
  have "inv_x xs (on_process_exit c st) = inv_x xs st"
    by (rule inv_x_cong) (simp_all add: on_process_exit_def emit_def)
  then show ?thesis using i ProcExit by (simp add: step_def)
next
  case SockClose
  assume i: "inv_x xs st"
  have "inv_x xs (on_socket_close st) = inv_x xs st"
    by (rule inv_x_cong) (simp_all add: on_socket_close_def)
  then show ?thesis using i SockClose by (simp add: step_def)
qed (simp_all add: step_def spawn_inv command_inv observeProperty_inv loadFile_inv destroy_inv
      fire_timer_inv on_connect_inv onData_inv dispatch_inv on_socket_error_inv run_microtask_inv)

lemma run_inv: "inv_x xs st \<Longrightarrow> inv_x xs (run rt env st es)"
  unfolding run_def by (rule foldl_inv) (simp_all add: step_inv)

lemma new_mpv_inv: "inv (new_mpv name obs)"
  by (simp add: inv_def inv_x_def inv_timers_def inv_keys_def inv_pending_def inv_waiters_def
      inv_promises_def open_promises_def new_mpv_def)

lemma reachable_inv: "inv (run rt env (new_mpv name obs) es)"
  using run_inv[OF new_mpv_inv[unfolded inv_def]] by (simp add: inv_def)

subsection \<open>Timeouts and late responses\<close>

lemma armed_lookup:
  assumes "inv_timers st" "(h, v) \<in> set (timers st)"
  shows "map_of (timers st) h = Some v"
  using assms by (simp add: inv_timers_def)

lemma pending_timer_armed:
  assumes i: "inv st" and g: "jsmap_get k (pending st) = Some pr"
  shows "map_of (timers st) (pr_timer pr) = Some (10000, CommandTimeout k (pr_promise pr))"
proof -
  have "(k, pr) \<in> set (pending st)" using g by (rule jsmap_get_mem)
  then have "(pr_timer pr, 10000, CommandTimeout k (pr_promise pr)) \<in> set (timers st)"
    using i unfolding inv_def inv_x_def inv_pending_def by fastforce
  then show ?thesis using i armed_lookup unfolding inv_def inv_x_def by blast
qed

lemma timeout_fires:
  assumes "map_of (timers st) h = Some (d, CommandTimeout k p)"
  shows "effects (fire_timer h st) = effects st @ [Reject p (JStr ''mpv command timed out'')]"
    and "pending (fire_timer h st) = jsmap_delete k (pending st)"
    and "timers (fire_timer h st) = clearTimeout (Some h) (timers st)"
  using assms by (simp_all add: fire_timer_def grace_or_timeout_def reject_def)

lemma unmatched_response_ignored:
  assumes "get_field msg ''request_id'' = Some rid" "rid \<noteq> JUndefined" "gt_zero rt rid"
    and "\<forall>k. key_of rid = Some k \<longrightarrow> jsmap_get k (pending st) = None"
  shows "handleMessage rt msg st = Some st"
  using assms by (simp add: handleMessage_def handle_response_def split: option.splits)

lemma disarmed_timer_cannot_fire: "map_of (timers st) h = None \<Longrightarrow> fire_timer h st = st"
  by (simp add: fire_timer_def)

lemma gt_zero_real: "gt_zero rt (JNum (real k)) = (0 < k)"
  by (simp add: gt_zero_def)

text \<open>
  Claim C10.  In every state an instance can reach, no promise has been resolved or
  rejected more than once.  A pending request has its 10 second timer armed; when that
  timer fires the entry is removed and its promise rejected with a timeout error, every
  other entry stays, and a response bearing that request id which arrives afterwards
  changes nothing at all.  A response whose request id matches no pending entry changes
  nothing: no promise is settled, nothing is thrown, every pending entry is as before.
  After a matching response the entry's timer is disarmed, so firing it does nothing, and
  a repeated response for the same id is ignored.
\<close>

theorem pending_request_settled_at_most_once:
  assumes reach: "st = run rt env (new_mpv name obs) es"
  shows "(\<forall>p. settled p (effects st) \<le> 1) \<and>
    (\<forall>k pr. jsmap_get k (pending st) = Some pr \<longrightarrow>
       map_of (timers st) (pr_timer pr) = Some (10000, CommandTimeout k (pr_promise pr)) \<and>
       effects (fire_timer (pr_timer pr) st)
         = effects st @ [Reject (pr_promise pr) (JStr ''mpv command timed out'')] \<and>
       jsmap_get k (pending (fire_timer (pr_timer pr) st)) = None \<and>
       (\<forall>j. j \<noteq> k \<longrightarrow> jsmap_get j (pending (fire_timer (pr_timer pr) st)) = jsmap_get j (pending st)) \<and>
       (\<forall>msg. get_field msg ''request_id'' = Some (JNum (real k)) \<and> 0 < k \<longrightarrow>
          handleMessage rt msg (fire_timer (pr_timer pr) st) = Some (fire_timer (pr_timer pr) st)) \<and>
       (\<forall>msg. get_field msg ''request_id'' = Some (JNum (real k)) \<and> 0 < k \<longrightarrow>
          map_of (timers (dispatch rt msg st)) (pr_timer pr) = None \<and>
          fire_timer (pr_timer pr) (dispatch rt msg st) = dispatch rt msg st \<and>
          handleMessage rt msg (dispatch rt msg st) = Some (dispatch rt msg st))) \<and>
    (\<forall>msg rid. get_field msg ''request_id'' = Some rid \<and> rid \<noteq> JUndefined \<and> gt_zero rt rid \<and>
         (\<forall>k. key_of rid = Some k \<longrightarrow> jsmap_get k (pending st) = None) \<longrightarrow>
       handleMessage rt msg st = Some st)"
proof (intro conjI allI impI)
  have i: "inv st" using reach reachable_inv by simp
  show "settled p (effects st) \<le> 1" for p
    using i by (simp add: inv_def inv_x_def inv_promises_def)
  show "handleMessage rt msg st = Some st"
    if "get_field msg ''request_id'' = Some rid \<and> rid \<noteq> JUndefined \<and> gt_zero rt rid \<and>
         (\<forall>k. key_of rid = Some k \<longrightarrow> jsmap_get k (pending st) = None)" for msg rid
    using that unmatched_response_ignored by blast
  fix k pr assume g: "jsmap_get k (pending st) = Some pr"
  let ?h = "pr_timer pr"
  show a: "map_of (timers st) ?h = Some (10000, CommandTimeout k (pr_promise pr))"
    using pending_timer_armed[OF i g] .
  note f = timeout_fires[OF a]
  show "effects (fire_timer ?h st) = effects st @ [Reject (pr_promise pr) (JStr ''mpv command timed out'')]"
    using f(1) .
  show gone: "jsmap_get k (pending (fire_timer ?h st)) = None"
    using f(2) by (simp add: jsmap_get_delete)
  show "jsmap_get j (pending (fire_timer ?h st)) = jsmap_get j (pending st)" if "j \<noteq> k" for j
    using f(2) that by (simp add: jsmap_get_delete)
  show "handleMessage rt msg (fire_timer ?h st) = Some (fire_timer ?h st)"
    if "get_field msg ''request_id'' = Some (JNum (real k)) \<and> 0 < k" for msg
    using that gone by (intro unmatched_response_ignored[where rid = "JNum (real k)"]) (simp_all add: gt_zero_real)
  fix msg assume m: "get_field msg ''request_id'' = Some (JNum (real k)) \<and> 0 < k"
  note d = dispatch_response[OF conjunct1[OF m] conjunct2[OF m] g, of rt]
  show c: "map_of (timers (dispatch rt msg st)) ?h = None"
    using d(3) by (simp add: clearTimeout_same)
  show "fire_timer ?h (dispatch rt msg st) = dispatch rt msg st"
    using c by (rule disarmed_timer_cannot_fire)
  have "jsmap_get k (pending (dispatch rt msg st)) = None"
    using d(2) by (simp add: jsmap_get_delete)
  then show "handleMessage rt msg (dispatch rt msg st) = Some (dispatch rt msg st)"
    using m by (intro unmatched_response_ignored[where rid = "JNum (real k)"]) (simp_all add: gt_zero_real)
qed


lemma one_in_flight_eq:
  "one_in_flight = (new_mpv ''pipe'' False)\<lparr> socket := Some 5, ready := True, requestId := 1,
     pending := [(1, \<lparr> pr_promise = 0, pr_timer = 0 \<rparr>)],
     timers := [(0, 10000, CommandTimeout 1 0)], nextTimer := 1, nextPromise := 1,
     effects := [Emit ''ready'' [],
       SocketWrite 5 (JObj [(''command'', JArr [JStr ''get_property'', JStr ''duration'']),
                            (''request_id'', JNum 1)])] \<rparr>"
  by (simp add: one_in_flight_def run_def step_def mpv_defs)

theorem pending_request_settled_at_most_once_witness:
  "jsmap_get 1 (pending one_in_flight) = Some \<lparr> pr_promise = 0, pr_timer = 0 \<rparr> \<and>
   settled 0 (effects one_in_flight) \<le> 1 \<and>
   effects (fire_timer 0 one_in_flight)
     = effects one_in_flight @ [Reject 0 (JStr ''mpv command timed out'')] \<and>
   handleMessage sample_rt (JObj [(''request_id'', JNum 1), (''error'', JStr ''success'')])
       (fire_timer 0 one_in_flight) = Some (fire_timer 0 one_in_flight) \<and>
   fire_timer 0 (dispatch sample_rt (JObj [(''request_id'', JNum 1), (''error'', JStr ''success'')]) one_in_flight)
     = dispatch sample_rt (JObj [(''request_id'', JNum 1), (''error'', JStr ''success'')]) one_in_flight"
proof -
  let ?m = "JObj [(''request_id'', JNum 1), (''error'', JStr ''success'')]"
  have g: "jsmap_get 1 (pending one_in_flight) = Some \<lparr> pr_promise = 0, pr_timer = 0 \<rparr>"
    by (simp add: one_in_flight_eq jsmap_get_def)
  have m: "get_field ?m ''request_id'' = Some (JNum (real (1::nat))) \<and> 0 < (1::nat)"
    by (simp add: get_field_def)
  note t = pending_request_settled_at_most_once[OF one_in_flight_def]
  have a: "settled 0 (effects one_in_flight) \<le> 1" using t by blast
  have b: "effects (fire_timer 0 one_in_flight)
     = effects one_in_flight @ [Reject 0 (JStr ''mpv command timed out'')]"
    using t g by fastforce
  have c: "handleMessage sample_rt ?m (fire_timer 0 one_in_flight) = Some (fire_timer 0 one_in_flight)"
    using t g m by fastforce
  have d: "fire_timer 0 (dispatch sample_rt ?m one_in_flight) = dispatch sample_rt ?m one_in_flight"
    using t g m by fastforce
  show ?thesis using g a b c d by blast
qed

subsection \<open>Destruction\<close>

lemma reject_destroyed_fields [simp]:
  "effects (reject_destroyed st e) = effects st @ [Reject (pr_promise (snd e)) (JStr ''mpv destroyed'')]"
  "timers (reject_destroyed st e) = clearTimeout (Some (pr_timer (snd e))) (timers st)"
  "socket (reject_destroyed st e) = socket st"
  "process (reject_destroyed st e) = process st"
  "ready (reject_destroyed st e) = ready st"
  by (simp_all add: reject_destroyed_def reject_def)

lemma reject_fold_effects:
  "effects (foldl reject_destroyed st es)
     = effects st @ map (\<lambda>e. Reject (pr_promise (snd e)) (JStr ''mpv destroyed'')) es"
  by (induction es arbitrary: st) simp_all

lemma reject_fold_fields [simp]:
  "socket (foldl reject_destroyed st es) = socket st"
  "process (foldl reject_destroyed st es) = process st"
  "ready (foldl reject_destroyed st es) = ready st"
  by (induction es arbitrary: st) simp_all

lemma reject_fold_timers:
  "set (timers (foldl reject_destroyed st es))
     = {t \<in> set (timers st). fst t \<notin> (\<lambda>e. pr_timer (snd e)) ` set es}"
  by (induction es arbitrary: st) (auto simp: clearTimeout_set)

lemma send_fields [simp]:
  "socket (send p args st) = socket st"
  "process (send p args st) = process st"
  "ready (send p args st) = ready st"
  by (simp_all add: send_def resolve_def setTimeout_def Let_def split: option.splits)

lemma command_fields [simp]:
  "socket (snd (command args st)) = socket st"
  "process (snd (command args st)) = process st"
  "ready (snd (command args st)) = ready st"
  by (simp_all add: command_def setTimeout_def Let_def)

lemma command_pending_ready:
  assumes "socket st = Some sock" "ready st" "inv_keys st"
  shows "pending (snd (command args st))
           = pending st @ [(Suc (requestId st), \<lparr> pr_promise = nextPromise st, pr_timer = nextTimer st \<rparr>)]"
    and "effects (snd (command args st)) = effects st @
           [SocketWrite sock (JObj [(''command'', JArr args), (''request_id'', JNum (real (Suc (requestId st))))])]"
proof -
  let ?s0 = "st\<lparr> nextPromise := Suc (nextPromise st) \<rparr>"
  have k: "inv_keys ?s0" using assms(3) by (simp add: inv_keys_def)
  have c: "snd (command args st) = send (nextPromise st) args ?s0"
    using assms by (simp add: command_def Let_def)
  show "pending (snd (command args st))
           = pending st @ [(Suc (requestId st), \<lparr> pr_promise = nextPromise st, pr_timer = nextTimer st \<rparr>)]"
    unfolding c using send_ready[of ?s0 sock, OF _ _ k] assms by simp
  show "effects (snd (command args st)) = effects st @
           [SocketWrite sock (JObj [(''command'', JArr args), (''request_id'', JNum (real (Suc (requestId st))))])]"
    unfolding c using send_ready[of ?s0 sock, OF _ _ k] assms by simp
qed

lemma command_waiting:
  assumes "socket st = None \<or> \<not> ready st"
  shows "snd (command args st) = st\<lparr> nextPromise := Suc (nextPromise st),
        timers := timers st @ [(nextTimer st, 3000, GraceTimeout (nextPromise st))],
        nextTimer := Suc (nextTimer st),
        readyListeners := readyListeners st @
          [\<lparr> rw_promise = nextPromise st, rw_args = args, rw_timer = nextTimer st, rw_done = False \<rparr>] \<rparr>"
    and "fst (command args st) = nextPromise st"
  using assms by (auto simp: command_def Let_def setTimeout_def)

lemma destroy_facts:
  "pending (destroy st) = []"
  "ready (destroy st) = False"
  "socket (destroy st) = None"
  "process (destroy st) = None"
  "effects (destroy st) = effects (after_quit st)
      @ (case socket st of None \<Rightarrow> [] | Some sock \<Rightarrow> [SocketDestroy sock])
      @ (case process st of None \<Rightarrow> [] | Some h \<Rightarrow> [ProcessKill h])
      @ map (\<lambda>e. Reject (pr_promise (snd e)) (JStr ''mpv destroyed'')) (pending (after_quit st))"
  "set (timers (destroy st))
      = {t \<in> set (timers (after_quit st)).
           fst t \<notin> (\<lambda>e. pr_timer (snd e)) ` set (pending (after_quit st))}"
  by (cases "socket st"; cases "process st";
      simp add: destroy_def Let_def after_quit_def reject_fold_effects reject_fold_timers)+


lemma settled_rejected:
  "e \<in> set es \<Longrightarrow>
   1 \<le> settled (pr_promise (snd e)) (map (\<lambda>e. Reject (pr_promise (snd e)) (JStr ''mpv destroyed'')) es)"
  by (induction es) (auto simp: settled_def settles_def)

lemma after_quit_pending:
  assumes "inv_keys st"
  shows "\<exists>extra. pending (after_quit st) = pending st @ extra"
proof (cases "socket st")
  case None
  then show ?thesis by (simp add: after_quit_def)
next
  case (Some sock)
  show ?thesis
  proof (cases "ready st")
    case True
    then show ?thesis using command_pending_ready(1)[OF Some True assms] Some
      by (simp add: after_quit_def)
  next
    case False
    then show ?thesis using command_waiting(1)[of st] Some by (simp add: after_quit_def)
  qed
qed

lemma after_quit_effects:
  "(\<forall>sock. socket st = Some sock \<and> ready st \<and> inv_keys st \<longrightarrow>
      effects (after_quit st) = effects st @
        [SocketWrite sock (JObj [(''command'', JArr [JStr ''quit'']),
                                 (''request_id'', JNum (real (Suc (requestId st))))])]) \<and>
   (socket st = None \<or> \<not> ready st \<longrightarrow> effects (after_quit st) = effects st)"
proof (intro conjI allI impI)
  fix sock assume "socket st = Some sock \<and> ready st \<and> inv_keys st"
  then show "effects (after_quit st) = effects st @
        [SocketWrite sock (JObj [(''command'', JArr [JStr ''quit'']),
                                 (''request_id'', JNum (real (Suc (requestId st))))])]"
    using command_pending_ready(2)[of st sock "[JStr ''quit'']"] by (simp add: after_quit_def)
next
  assume "socket st = None \<or> \<not> ready st"
  then show "effects (after_quit st) = effects st"
    using command_waiting(1)[of st "[JStr ''quit'']"] by (auto simp: after_quit_def)
qed

lemma after_quit_inv: "inv st \<Longrightarrow> inv (after_quit st)"
  using command_inv[of "[]" st] by (simp add: after_quit_def inv_def)

lemma after_quit_timers: "set (timers st) \<subseteq> set (timers (after_quit st))"
  by (auto simp: after_quit_def command_def send_def setTimeout_def resolve_def settle_def Let_def
      split: option.splits)

lemma destroy_leaves_other_timers:
  assumes "inv st"
  shows "set (timers (destroy st))
           = {t \<in> set (timers (after_quit st)). \<forall>k p. snd (snd t) \<noteq> CommandTimeout k p}"
proof -
  let ?q = "after_quit st"
  have i: "inv ?q" using assms by (rule after_quit_inv)
  then have ip: "inv_pending ?q" and it: "inv_timers ?q" by (simp_all add: inv_def inv_x_def)
  have a: "fst t \<in> (\<lambda>e. pr_timer (snd e)) ` set (pending ?q) \<longleftrightarrow> (\<exists>k p. snd (snd t) = CommandTimeout k p)"
    if t: "t \<in> set (timers ?q)" for t
  proof
    assume "fst t \<in> (\<lambda>e. pr_timer (snd e)) ` set (pending ?q)"
    then obtain e where e: "e \<in> set (pending ?q)" "fst t = pr_timer (snd e)" by auto
    then have m: "(pr_timer (snd e), 10000, CommandTimeout (fst e) (pr_promise (snd e))) \<in> set (timers ?q)"
      using ip by (simp add: inv_pending_def)
    have "(pr_timer (snd e), snd t) \<in> set (timers ?q)" using t e(2) by (metis prod.collapse)
    then have "snd t = (10000, CommandTimeout (fst e) (pr_promise (snd e)))"
      using handle_unique[OF it _ m] by simp
    then show "\<exists>k p. snd (snd t) = CommandTimeout k p" by simp
  next
    assume "\<exists>k p. snd (snd t) = CommandTimeout k p"
    then obtain k p where "snd (snd t) = CommandTimeout k p" by blast
    then have "(k, \<lparr> pr_promise = p, pr_timer = fst t \<rparr>) \<in> set (pending ?q)"
      using ip t by (simp add: inv_pending_def)
    then show "fst t \<in> (\<lambda>e. pr_timer (snd e)) ` set (pending ?q)" by force
  qed
  show ?thesis unfolding destroy_facts(6) using a by blast
qed

text \<open>
  Claim C3, as amended.  In every state an instance can reach, \<^verbatim>\<open>destroy()\<close> first
  issues the best-effort \<^verbatim>\<open>quit\<close> when there is a socket (written to the socket when
  the instance is ready), then destroys the socket, kills the process, and rejects every
  pending request, in insertion order, with the error \<^verbatim>\<open>mpv destroyed\<close>.  Each of the
  pending requests was unsettled before and is settled exactly once after, and its
  timer is disarmed.  On return the pending map is empty, the ready flag is false,
  socket and process are cleared, and no request timeout timer is armed.  The timers
  that remain are exactly the timers that are not request timeouts: every connect or
  grace timer armed before \<^verbatim>\<open>destroy()\<close> is still armed after it.
\<close>

theorem destroy_rejects_every_pending_request:
  assumes reach: "st = run rt env (new_mpv name obs) es"
  shows "pending (destroy st) = [] \<and> ready (destroy st) = False \<and>
    socket (destroy st) = None \<and> process (destroy st) = None \<and>
    effects (destroy st) = effects (after_quit st)
      @ (case socket st of None \<Rightarrow> [] | Some sock \<Rightarrow> [SocketDestroy sock])
      @ (case process st of None \<Rightarrow> [] | Some h \<Rightarrow> [ProcessKill h])
      @ map (\<lambda>e. Reject (pr_promise (snd e)) (JStr ''mpv destroyed'')) (pending (after_quit st)) \<and>
    (\<exists>extra. pending (after_quit st) = pending st @ extra) \<and>
    (\<forall>sock. socket st = Some sock \<and> ready st \<longrightarrow>
       effects (after_quit st) = effects st @
         [SocketWrite sock (JObj [(''command'', JArr [JStr ''quit'']),
                                  (''request_id'', JNum (real (Suc (requestId st))))])]) \<and>
    (socket st = None \<or> \<not> ready st \<longrightarrow> effects (after_quit st) = effects st) \<and>
    (\<forall>e \<in> set (pending st).
       settled (pr_promise (snd e)) (effects st) = 0 \<and>
       settled (pr_promise (snd e)) (effects (destroy st)) = 1 \<and>
       map_of (timers (destroy st)) (pr_timer (snd e)) = None) \<and>
    (\<forall>t \<in> set (timers (destroy st)). \<forall>k p. snd (snd t) \<noteq> CommandTimeout k p) \<and>
    set (timers (destroy st))
      = {t \<in> set (timers (after_quit st)). \<forall>k p. snd (snd t) \<noteq> CommandTimeout k p} \<and>
    (\<forall>t \<in> set (timers st). (\<forall>k p. snd (snd t) \<noteq> CommandTimeout k p) \<longrightarrow> t \<in> set (timers (destroy st)))"
proof -
  have i: "inv st" using reach reachable_inv by simp
  then have ik: "inv_keys st" by (simp add: inv_def inv_x_def)
  have id: "inv (destroy st)" using i destroy_inv by (simp add: inv_def)
  note f = destroy_facts[of st]
  obtain extra where ex: "pending (after_quit st) = pending st @ extra"
    using after_quit_pending[OF ik] by blast
  have each: "settled (pr_promise (snd e)) (effects st) = 0 \<and>
       settled (pr_promise (snd e)) (effects (destroy st)) = 1 \<and>
       map_of (timers (destroy st)) (pr_timer (snd e)) = None" if e: "e \<in> set (pending st)" for e
  proof -
    have "pr_promise (snd e) \<in> set (open_promises st)" using e by (simp add: open_promises_def)
    then have a: "settled (pr_promise (snd e)) (effects st) = 0"
      using i by (simp add: inv_def inv_x_def inv_promises_def)
    have "e \<in> set (pending (after_quit st))" using e ex by simp
    then have "1 \<le> settled (pr_promise (snd e))
        (map (\<lambda>e. Reject (pr_promise (snd e)) (JStr ''mpv destroyed'')) (pending (after_quit st)))"
      by (rule settled_rejected)
    then have "1 \<le> settled (pr_promise (snd e)) (effects (destroy st))"
      unfolding f(5) by simp
    moreover have "settled (pr_promise (snd e)) (effects (destroy st)) \<le> 1"
      using id by (simp add: inv_def inv_x_def inv_promises_def)
    ultimately have b: "settled (pr_promise (snd e)) (effects (destroy st)) = 1" by simp
    have "pr_timer (snd e) \<notin> fst ` set (timers (destroy st))"
      using \<open>e \<in> set (pending (after_quit st))\<close> unfolding f(6) by auto
    then have c: "map_of (timers (destroy st)) (pr_timer (snd e)) = None"
      by (simp add: map_of_eq_None_iff)
    show ?thesis using a b c by simp
  qed
  have none: "\<forall>t \<in> set (timers (destroy st)). \<forall>k p. snd (snd t) \<noteq> CommandTimeout k p"
    using id f(1) unfolding inv_def inv_x_def inv_pending_def by auto
  have left: "set (timers (destroy st))
      = {t \<in> set (timers (after_quit st)). \<forall>k p. snd (snd t) \<noteq> CommandTimeout k p}"
    using i by (rule destroy_leaves_other_timers)
  have kept: "\<forall>t \<in> set (timers st). (\<forall>k p. snd (snd t) \<noteq> CommandTimeout k p) \<longrightarrow> t \<in> set (timers (destroy st))"
    using left after_quit_timers[of st] by blast
  have q1: "\<forall>sock. socket st = Some sock \<and> ready st \<longrightarrow>
       effects (after_quit st) = effects st @
         [SocketWrite sock (JObj [(''command'', JArr [JStr ''quit'']),
                                  (''request_id'', JNum (real (Suc (requestId st))))])]"
    using after_quit_effects[of st] ik by blast
  have q2: "socket st = None \<or> \<not> ready st \<longrightarrow> effects (after_quit st) = effects st"
    using after_quit_effects[of st] by blast
  have all: "\<forall>e \<in> set (pending st).
       settled (pr_promise (snd e)) (effects st) = 0 \<and>
       settled (pr_promise (snd e)) (effects (destroy st)) = 1 \<and>
       map_of (timers (destroy st)) (pr_timer (snd e)) = None"
    using each by blast
  have exq: "\<exists>extra. pending (after_quit st) = pending st @ extra" using ex by blast
  show ?thesis
    by (intro conjI) (fact f(1) f(2) f(3) f(4) f(5) exq q1 q2 all none left kept)+
qed


lemma two_in_flight_fields:
  "pending two_in_flight = [(1, \<lparr> pr_promise = 0, pr_timer = 1 \<rparr>), (2, \<lparr> pr_promise = 1, pr_timer = 2 \<rparr>)]"
  "socket two_in_flight = Some 5" "process two_in_flight = Some 9" "ready two_in_flight"
  "requestId two_in_flight = 2"
  "timers two_in_flight = [(1, 10000, CommandTimeout 1 0), (2, 10000, CommandTimeout 2 1)]"
  by (simp_all add: two_in_flight_def run_def step_def spawn_def sample_env_def headless_opts_def
      fire_timer_def grace_or_timeout_def connectSocket_def clearTimeout_def or_else_def mpv_defs)


theorem destroy_rejects_every_pending_request_witness:
  "pending two_in_flight = [(1, \<lparr> pr_promise = 0, pr_timer = 1 \<rparr>), (2, \<lparr> pr_promise = 1, pr_timer = 2 \<rparr>)] \<and>
   pending (destroy two_in_flight) = [] \<and>
   settled 0 (effects (destroy two_in_flight)) = 1 \<and>
   settled 1 (effects (destroy two_in_flight)) = 1 \<and>
   map_of (timers (destroy two_in_flight)) 1 = None \<and>
   map_of (timers (destroy two_in_flight)) 2 = None \<and>
   effects (after_quit two_in_flight) = effects two_in_flight @
     [SocketWrite 5 (JObj [(''command'', JArr [JStr ''quit'']), (''request_id'', JNum 3)])] \<and>
   effects (destroy two_in_flight) = effects two_in_flight @
     [SocketWrite 5 (JObj [(''command'', JArr [JStr ''quit'']), (''request_id'', JNum 3)]),
      SocketDestroy 5, ProcessKill 9,
      Reject 0 (JStr ''mpv destroyed''), Reject 1 (JStr ''mpv destroyed''),
      Reject 2 (JStr ''mpv destroyed'')]"
proof -
  note f = two_in_flight_fields
  note t = destroy_rejects_every_pending_request[OF two_in_flight_def]
  have q: "effects (after_quit two_in_flight) = effects two_in_flight @
     [SocketWrite 5 (JObj [(''command'', JArr [JStr ''quit'']), (''request_id'', JNum 3)])]"
    using t f(2,4,5) by simp
  have e1: "(1, \<lparr> pr_promise = 0, pr_timer = 1 \<rparr>) \<in> set (pending two_in_flight)"
    and e2: "(2, \<lparr> pr_promise = 1, pr_timer = 2 \<rparr>) \<in> set (pending two_in_flight)"
    by (simp_all add: f(1))
  have s0: "settled 0 (effects (destroy two_in_flight)) = 1 \<and> map_of (timers (destroy two_in_flight)) 1 = None"
    using t e1 by fastforce
  have s1: "settled 1 (effects (destroy two_in_flight)) = 1 \<and> map_of (timers (destroy two_in_flight)) 2 = None"
    using t e2 by fastforce
  have pq: "pending (after_quit two_in_flight) = pending two_in_flight @ [(3, \<lparr> pr_promise = 2, pr_timer = 3 \<rparr>)]"
    by (simp add: after_quit_def f command_def send_def setTimeout_def Let_def two_in_flight_def
        run_def step_def spawn_def sample_env_def headless_opts_def
      fire_timer_def grace_or_timeout_def connectSocket_def clearTimeout_def or_else_def mpv_defs)
  have "effects (destroy two_in_flight) = effects (after_quit two_in_flight)
      @ [SocketDestroy 5] @ [ProcessKill 9]
      @ map (\<lambda>e. Reject (pr_promise (snd e)) (JStr ''mpv destroyed'')) (pending (after_quit two_in_flight))"
    using t f(2,3) by simp
  then have ef: "effects (destroy two_in_flight) = effects two_in_flight @
     [SocketWrite 5 (JObj [(''command'', JArr [JStr ''quit'']), (''request_id'', JNum 3)]),
      SocketDestroy 5, ProcessKill 9,
      Reject 0 (JStr ''mpv destroyed''), Reject 1 (JStr ''mpv destroyed''),
      Reject 2 (JStr ''mpv destroyed'')]"
    by (simp add: q pq f(1))
  have p0: "pending (destroy two_in_flight) = []" using t by blast
  show ?thesis using f(1) p0 s0 s1 q ef by blast
qed

text \<open>
  The claim as first stated says that no timer remains.  A spawned instance that is
  destroyed before its socket connects keeps the 300 ms connect timer, which then
  fires and opens a connection; a command issued before the connection keeps its
  3 s grace timer.
\<close>

theorem destroy_leaves_timers_counterexample:
  "timers (destroy just_spawned) = [(0, 300, ConnectSocket 10)] \<and>
   pending (destroy just_spawned) = [] \<and>
   effects (fire_timer 0 (destroy just_spawned))
     = effects (destroy just_spawned) @ [CreateConnection ''pipe'' 10] \<and>
   timers (destroy waiting_command) = [(0, 3000, GraceTimeout 0)]"
  by (simp add: just_spawned_def waiting_command_def run_def step_def spawn_def sample_env_def
      headless_opts_def fire_timer_def grace_or_timeout_def connectSocket_def clearTimeout_def
      or_else_def destroy_def new_mpv_def command_def setTimeout_def Let_def)
subsection \<open>Commands issued before the instance is ready\<close>

lemma emit_listeners [simp]: "readyListeners (emit n a st) = readyListeners st"
  by (simp add: emit_def)

lemma command_listeners: "set (readyListeners st) \<subseteq> set (readyListeners (snd (command args st)))"
  by (auto simp: command_def Let_def setTimeout_def)

lemma handle_response_listeners [simp]: "readyListeners (handle_response msg rid st) = readyListeners st"
  by (simp add: handle_response_def Let_def resolve_def reject_def split: option.splits)

lemma handle_event_listeners [simp]: "readyListeners (handle_event msg st) = readyListeners st"
  by (simp add: handle_event_def Let_def)

lemma dispatch_listeners [simp]: "readyListeners (dispatch rt msg st) = readyListeners st"
  by (simp add: dispatch_def handleMessage_def split: option.splits)

lemma on_line_listeners [simp]: "readyListeners (on_line rt st line) = readyListeners st"
  by (simp add: on_line_def split: option.splits)

lemma on_line_fold_listeners [simp]: "readyListeners (foldl (on_line rt) st ls) = readyListeners st"
  by (induction ls arbitrary: st) simp_all

lemma onData_listeners [simp]: "readyListeners (onData rt chunk st) = readyListeners st"
  by (simp add: onData_def onText_def Let_def)

lemma reject_destroyed_listeners [simp]: "readyListeners (reject_destroyed st e) = readyListeners st"
  by (simp add: reject_destroyed_def reject_def)

lemma reject_fold_listeners [simp]: "readyListeners (foldl reject_destroyed st es) = readyListeners st"
  by (induction es arbitrary: st) simp_all

lemma destroy_listeners: "set (readyListeners st) \<subseteq> set (readyListeners (destroy st))"
  using command_listeners[of st "[JStr ''quit'']"]
  by (cases "socket st"; cases "process st") (simp_all add: destroy_def Let_def)

lemma observeProperty_listeners:
  "set (readyListeners st) \<subseteq> set (readyListeners (snd (observeProperty name st)))"
  using command_listeners[of "st\<lparr> nextObsId := Suc (nextObsId st),
               observedProps := jsmap_set (nextObsId st) name (observedProps st) \<rparr>"]
  by (simp add: observeProperty_def Let_def)

lemma loadFile_listeners: "set (readyListeners st) \<subseteq> set (readyListeners (snd (loadFile path st)))"
  using command_listeners[of "st\<lparr> filePath := Some path \<rparr>"] by (simp add: loadFile_def)

lemma observe_loop_listeners: "set (readyListeners st) \<subseteq> set (readyListeners (observe_loop props st))"
proof (cases props)
  case Nil
  then show ?thesis by (simp add: observe_loop_def)
next
  case (Cons p rest)
  obtain q st1 where o: "observeProperty p st = (q, st1)" by (cases "observeProperty p st")
  then have "set (readyListeners st) \<subseteq> set (readyListeners st1)"
    using observeProperty_listeners[of st p] by simp
  then show ?thesis using Cons o by (simp add: observe_loop_def await_promise_def)
qed

lemma run_microtask_listeners: "set (readyListeners st) \<subseteq> set (readyListeners (run_microtask st))"
proof (cases "microtasks st")
  case Nil
  then show ?thesis by (simp add: run_microtask_def)
next
  case (Cons a rest)
  obtain k ok where a: "a = (k, ok)" by (cases a)
  have "set (readyListeners st) \<subseteq> set (readyListeners (resume k ok (st\<lparr> microtasks := rest \<rparr>)))"
    using observe_loop_listeners[of "st\<lparr> microtasks := rest \<rparr>"]
    by (cases k) (simp_all add: resume_def)
  then show ?thesis using Cons a by (simp add: run_microtask_def)
qed

lemma spawn_listeners [simp]: "readyListeners (spawn env h nh opts st) = readyListeners st"
  by (simp add: spawn_def Let_def setTimeout_def split: option.splits)

lemma on_socket_error_listeners [simp]: "readyListeners (on_socket_error r m st) = readyListeners st"
  by (simp add: on_socket_error_def setTimeout_def)


lemma undone_unique:
  assumes i: "inv st" and a: "w \<in> set (readyListeners st)" "\<not> rw_done w"
    and b: "v \<in> set (readyListeners st)" "\<not> rw_done v" and e: "rw_promise v = rw_promise w"
  shows "v = w"
proof -
  have "distinct (map rw_promise (filter (\<lambda>w. \<not> rw_done w) (readyListeners st)))"
    using i unfolding inv_def inv_x_def inv_promises_def open_promises_def by simp
  moreover have "w \<in> set (filter (\<lambda>w. \<not> rw_done w) (readyListeners st))"
    "v \<in> set (filter (\<lambda>w. \<not> rw_done w) (readyListeners st))"
    using a b by simp_all
  ultimately show ?thesis using e by (meson distinct_map inj_on_def)
qed

lemma fire_timer_listener_kept:
  assumes i: "inv st" and w: "w \<in> set (readyListeners st)" "\<not> rw_done w"
    and h: "h \<noteq> rw_timer w"
  shows "w \<in> set (readyListeners (fire_timer h st))"
proof (cases "map_of (timers st) h")
  case None
  then show ?thesis using w by (simp add: fire_timer_def)
next
  case (Some v)
  obtain d cb where v: "v = (d, cb)" by (cases v)
  have m: "(h, d, cb) \<in> set (timers st)" using Some v by (simp add: map_of_mem)
  show ?thesis
  proof (cases cb)
    case (CommandTimeout k p)
    then show ?thesis using Some v w by (simp add: fire_timer_def grace_or_timeout_def reject_def)
  next
    case (ConnectSocket r)
    then show ?thesis using Some v w by (simp add: fire_timer_def grace_or_timeout_def connectSocket_def)
  next
    case (GraceTimeout p)
    then obtain u where u: "u \<in> set (readyListeners st)" "rw_promise u = p" "rw_timer u = h" "\<not> rw_done u"
      using i m unfolding inv_def inv_x_def inv_waiters_def by fastforce
    have "rw_promise w \<noteq> p"
    proof
      assume "rw_promise w = p"
      then have "u = w" using undone_unique[OF i w u(1,4)] u(2) by simp
      then show False using u(3) h by simp
    qed
    then have "w \<in> set (map (\<lambda>w. if rw_promise w = p then w\<lparr> rw_done := True \<rparr> else w) (readyListeners st))"
      using w(1) by (force simp: image_iff)
    then show ?thesis using Some v GraceTimeout w(1)
      by (simp add: fire_timer_def grace_or_timeout_def grace_timeout_def resolve_def)
  qed
qed

lemma step_listener_kept:
  assumes i: "inv st" and w: "w \<in> set (readyListeners st)" "\<not> rw_done w"
    and q: "e \<noteq> TimerFire (rw_timer w)" "\<forall>sock. e \<noteq> SockConnect sock"
  shows "w \<in> set (readyListeners (step rt env st e))"
proof (cases e)
  case (CallCommand args)
  then show ?thesis using w command_listeners[of st args] by (auto simp: step_def)
next
  case (CallObserveProperty n)
  then show ?thesis using w observeProperty_listeners[of st n] by (auto simp: step_def)
next
  case (CallLoadFile f)
  then show ?thesis using w loadFile_listeners[of st f] by (auto simp: step_def)
next
  case CallDestroy
  then show ?thesis using w destroy_listeners[of st] by (auto simp: step_def)
next
  case (TimerFire h)
  then show ?thesis using fire_timer_listener_kept[OF i w, of h] q(1) by (simp add: step_def)
next
  case (SockConnect s)
  then show ?thesis using q(2) by simp
next
  case Microtask
  then show ?thesis using w run_microtask_listeners[of st] by (auto simp: step_def)
qed (use w in \<open>simp_all add: step_def on_socket_close_def on_stdout_def on_stderr_def
      on_process_error_def on_process_exit_def\<close>)

lemma run_listener_kept:
  assumes "inv st" "w \<in> set (readyListeners st)" "\<not> rw_done w"
    and "\<forall>e \<in> set es. e \<noteq> TimerFire (rw_timer w) \<and> (\<forall>sock. e \<noteq> SockConnect sock)"
  shows "w \<in> set (readyListeners (run rt env st es)) \<and> inv (run rt env st es)"
  using assms
proof (induction es arbitrary: st)
  case Nil
  then show ?case by (simp add: run_def)
next
  case (Cons e es)
  have 1: "inv (step rt env st e)" using Cons.prems(1) step_inv by (simp add: inv_def)
  have 2: "w \<in> set (readyListeners (step rt env st e))"
    using step_listener_kept[OF Cons.prems(1,2,3)] Cons.prems(4) by simp
  have "w \<in> set (readyListeners (run rt env (step rt env st e) es)) \<and> inv (run rt env (step rt env st e) es)"
    using Cons.IH[OF 1 2 Cons.prems(3)] Cons.prems(4) by simp
  then show ?case by (simp add: run_def)
qed


lemma grace_fires:
  assumes i: "inv st" and w: "w \<in> set (readyListeners st)" "\<not> rw_done w"
  shows "map_of (timers st) (rw_timer w) = Some (3000, GraceTimeout (rw_promise w))"
    and "effects (fire_timer (rw_timer w) st) = effects st @ [Resolve (rw_promise w) JNull]"
    and "settled (rw_promise w) (effects st) = 0"
proof -
  have "(rw_timer w, 3000, GraceTimeout (rw_promise w)) \<in> set (timers st)"
    using i w unfolding inv_def inv_x_def inv_waiters_def by blast
  then show a: "map_of (timers st) (rw_timer w) = Some (3000, GraceTimeout (rw_promise w))"
    using i armed_lookup unfolding inv_def inv_x_def by blast
  have "list_ex (\<lambda>v. rw_promise v = rw_promise w \<and> \<not> rw_done v) (readyListeners st)"
    using w by (auto simp: list_ex_iff)
  then show "effects (fire_timer (rw_timer w) st) = effects st @ [Resolve (rw_promise w) JNull]"
    using a by (simp add: fire_timer_def grace_or_timeout_def grace_timeout_def resolve_def)
  have "rw_promise w \<in> set (open_promises st)" using w by (simp add: open_promises_def)
  then show "settled (rw_promise w) (effects st) = 0"
    using i by (simp add: inv_def inv_x_def inv_promises_def)
qed

lemma send_effects_grow: "set (effects st) \<subseteq> set (effects (send p args st))"
  by (auto simp: send_def resolve_def setTimeout_def Let_def split: option.splits)

lemma ready_listener_effects_grow: "set (effects st) \<subseteq> set (effects (ready_listener w st))"
  using send_effects_grow[of "st\<lparr> timers := clearTimeout (Some (rw_timer w)) (timers st) \<rparr>"]
  by (simp add: ready_listener_def)

lemma ready_fold_effects_grow:
  "set (effects st) \<subseteq> set (effects (foldl (\<lambda>s w. ready_listener w s) st ws))"
proof (induction ws arbitrary: st)
  case Nil
  then show ?case by simp
next
  case (Cons w ws)
  then show ?case using ready_listener_effects_grow[of st w] by fastforce
qed

lemma ready_listener_fields [simp]:
  "socket (ready_listener w st) = socket st" "ready (ready_listener w st) = ready st"
  by (simp_all add: ready_listener_def)

lemma ready_listener_writes:
  assumes "\<not> rw_done w" "socket st = Some sock" "ready st"
  shows "SocketWrite sock (JObj [(''command'', JArr (rw_args w)),
            (''request_id'', JNum (real (Suc (requestId st))))]) \<in> set (effects (ready_listener w st))"
  using assms by (simp add: ready_listener_def send_def setTimeout_def Let_def)

lemma ready_fold_writes:
  assumes "w \<in> set ws" "\<not> rw_done w" "socket st = Some sock" "ready st"
  shows "\<exists>rid. SocketWrite sock (JObj [(''command'', JArr (rw_args w)), (''request_id'', JNum (real rid))])
            \<in> set (effects (foldl (\<lambda>s w. ready_listener w s) st ws))"
  using assms
proof (induction ws arbitrary: st)
  case Nil
  then show ?case by simp
next
  case (Cons v ws)
  show ?case
  proof (cases "v = w")
    case True
    have "SocketWrite sock (JObj [(''command'', JArr (rw_args w)),
            (''request_id'', JNum (real (Suc (requestId st))))]) \<in> set (effects (ready_listener w st))"
      using ready_listener_writes Cons.prems by blast
    then have "SocketWrite sock (JObj [(''command'', JArr (rw_args w)),
            (''request_id'', JNum (real (Suc (requestId st))))])
          \<in> set (effects (foldl (\<lambda>s w. ready_listener w s) (ready_listener w st) ws))"
      using ready_fold_effects_grow[of "ready_listener w st" ws] by blast
    then show ?thesis unfolding True foldl_Cons by (rule exI)
  next
    case False
    then have "w \<in> set ws" using Cons.prems(1) by simp
    from Cons.IH[OF this Cons.prems(2), of "ready_listener v st"] Cons.prems(3,4)
    show ?thesis by simp
  qed
qed

lemma command_effects_grow: "set (effects st) \<subseteq> set (effects (snd (command args st)))"
  using send_effects_grow[of "st\<lparr> nextPromise := Suc (nextPromise st) \<rparr>"]
  by (auto simp: command_def Let_def setTimeout_def)

lemma on_connect_writes:
  assumes "w \<in> set (readyListeners st)" "\<not> rw_done w"
  shows "\<exists>rid. SocketWrite sock (JObj [(''command'', JArr (rw_args w)), (''request_id'', JNum (real rid))])
            \<in> set (effects (on_connect sock st))"
proof -
  let ?a = "st\<lparr> socket := Some sock, ready := True, recvBuf := [] \<rparr>"
  let ?b = "?a\<lparr> readyListeners := [], effects := effects ?a @ [Emit ''ready'' []] \<rparr>"
  have e: "emit_ready ?a = foldl (\<lambda>s w. ready_listener w s) ?b (readyListeners st)"
    by (simp add: emit_ready_def)
  have "socket ?b = Some sock" "ready ?b" by simp_all
  from ready_fold_writes[OF assms this]
  obtain rid where r: "SocketWrite sock (JObj [(''command'', JArr (rw_args w)), (''request_id'', JNum (real rid))])
            \<in> set (effects (emit_ready ?a))"
    unfolding e by blast
  have "set (effects (emit_ready ?a)) \<subseteq> set (effects (on_connect sock st))"
    using command_effects_grow[of "emit_ready ?a" "[JStr ''request_log_messages'', JStr ''debug'']"]
    by (auto simp: on_connect_def Let_def observeDefaults_start_def await_promise_def split: prod.splits)
  then show ?thesis using r by blast
qed


text \<open>
  Claim C7.  Let \<^verbatim>\<open>command\<close> be called in a reachable state without socket or with
  the ready flag false.  The call writes nothing and settles nothing; it arms a timer of
  3000 ms.  As long as no \<^verbatim>\<open>ready\<close> is emitted and that timer has not fired, whatever
  else happens, the timer stays armed and the promise unsettled.  When the timer then
  fires, the promise is resolved with \<^verbatim>\<open>null\<close>; it is not rejected.  When instead the
  socket connects, the command is written to the socket with a request id.
\<close>

theorem command_before_ready_waits_then_resolves_null:
  assumes reach: "st = run rt env (new_mpv name obs) es0"
    and notconn: "socket st = None \<or> \<not> ready st"
    and later: "st2 = run rt env (snd (command args st)) es"
    and quiet: "\<forall>e \<in> set es. e \<noteq> TimerFire (nextTimer st) \<and> (\<forall>sock. e \<noteq> SockConnect sock)"
  shows "fst (command args st) = nextPromise st \<and>
    effects (snd (command args st)) = effects st \<and>
    pending (snd (command args st)) = pending st \<and>
    map_of (timers st2) (nextTimer st) = Some (3000, GraceTimeout (nextPromise st)) \<and>
    settled (nextPromise st) (effects st2) = 0 \<and>
    effects (fire_timer (nextTimer st) st2) = effects st2 @ [Resolve (nextPromise st) JNull] \<and>
    (\<forall>sock. \<exists>rid. SocketWrite sock (JObj [(''command'', JArr args), (''request_id'', JNum (real rid))])
         \<in> set (effects (on_connect sock st2)))"
proof -
  let ?w = "\<lparr> rw_promise = nextPromise st, rw_args = args, rw_timer = nextTimer st, rw_done = False \<rparr>"
  let ?c = "snd (command args st)"
  have i: "inv st" using reach reachable_inv by simp
  have ic: "inv ?c" using i command_inv by (simp add: inv_def)
  note cw = command_waiting[OF notconn, of args]
  have wc: "?w \<in> set (readyListeners ?c)" unfolding cw(1) by simp
  have q: "\<forall>e \<in> set es. e \<noteq> TimerFire (rw_timer ?w) \<and> (\<forall>sock. e \<noteq> SockConnect sock)"
    using quiet by simp
  have k: "?w \<in> set (readyListeners st2) \<and> inv st2"
    unfolding later using run_listener_kept[OF ic wc _ q] by simp
  note g = grace_fires[OF conjunct2[OF k] conjunct1[OF k]]
  have 1: "effects ?c = effects st" "pending ?c = pending st" unfolding cw(1) by simp_all
  have 2: "\<forall>sock. \<exists>rid. SocketWrite sock (JObj [(''command'', JArr args), (''request_id'', JNum (real rid))])
         \<in> set (effects (on_connect sock st2))"
    using on_connect_writes[OF conjunct1[OF k]] by simp
  show ?thesis using cw(2) 1 g 2 by simp
qed


theorem command_before_ready_waits_then_resolves_null_witness:
  "socket (new_mpv ''pipe'' False) = None \<and>
   fst (command [JStr ''get_property'', JStr ''pause''] (new_mpv ''pipe'' False)) = 0 \<and>
   effects (snd (command [JStr ''get_property'', JStr ''pause''] (new_mpv ''pipe'' False))) = [] \<and>
   effects (fire_timer 0 (run sample_rt sample_env
       (snd (command [JStr ''get_property'', JStr ''pause''] (new_mpv ''pipe'' False)))
       [CallLoadFile ''a.mkv'', ProcStdout ''starting'']))
     = effects (run sample_rt sample_env
       (snd (command [JStr ''get_property'', JStr ''pause''] (new_mpv ''pipe'' False)))
       [CallLoadFile ''a.mkv'', ProcStdout ''starting'']) @ [Resolve 0 JNull]"
proof -
  let ?st = "new_mpv ''pipe'' False"
  let ?args = "[JStr ''get_property'', JStr ''pause'']"
  let ?es = "[CallLoadFile ''a.mkv'', ProcStdout ''starting'']"
  have r: "?st = run sample_rt sample_env (new_mpv ''pipe'' False) []" by (simp add: run_def)
  have n: "socket ?st = None \<or> \<not> ready ?st" by (simp add: new_mpv_def)
  have q: "\<forall>e \<in> set ?es. e \<noteq> TimerFire (nextTimer ?st) \<and> (\<forall>sock. e \<noteq> SockConnect sock)" by simp
  have z: "nextPromise ?st = 0" "nextTimer ?st = 0" "effects ?st = []" "socket ?st = None"
    by (simp_all add: new_mpv_def)
  show ?thesis
    using command_before_ready_waits_then_resolves_null[OF r n refl q, of ?args] z by simp
qed

end
